theory Spec2Isabelle
  imports Complex_Main "HOL-Library.Log_Nat" "HOL-Library.Product_Lexorder"
begin

section \<open>Study tracker: timers, chapter progress and the session store\<close>

text \<open>
  A shallow embedding of \<^verbatim>\<open>src/study_view.py\<close> and \<^verbatim>\<open>src/data_store.py\<close>.
  Python integers are HOL integers (\<^verbatim>\<open>//\<close> and \<^verbatim>\<open>%\<close> are \<open>div\<close> and \<open>mod\<close>, both
  rounding towards minus infinity). A widget is a record of its attributes; a method is
  a function from the record to the updated record. An attribute that \<^verbatim>\<open>__init__\<close>
  does not assign is an \<open>option\<close> field that starts as \<open>None\<close>, and reading it raises
  \<open>AttributeError\<close>. The \<^verbatim>\<open>QTimer\<close> of a widget is the flag \<open>isActive\<close> only: its
  \<^verbatim>\<open>start()\<close> sets the flag and \<^verbatim>\<open>stop()\<close> clears it. Each call of a callback the
  widget was constructed with is appended to the widget's list of calls. Repainting
  (\<^verbatim>\<open>_refresh_circle\<close>, \<^verbatim>\<open>display.setText\<close>) changes no attribute and is left out.
\<close>

subsection \<open>Errors\<close>

datatype py_error =
    AttributeError string | TypeError string | OverflowError string | IntegrityError string
  | ValueError string | OperationalError string

subsection \<open>Texts\<close>

text \<open>
  A Python \<^verbatim>\<open>str\<close> is modelled as a \<open>string\<close> whose characters are the code points
  \<open>0..255\<close>; texts with code points beyond that range are outside the model. On this
  range \<^verbatim>\<open>str.isspace\<close> holds for \<open>0x09..0x0D\<close>, \<open>0x1C..0x1F\<close>, \<open>0x20\<close>, \<open>0x85\<close> and
  \<open>0xA0\<close>; \<^verbatim>\<open>str.isdigit\<close> accepts the ten ASCII digits and the superscripts
  \<open>0xB2\<close>, \<open>0xB3\<close>, \<open>0xB9\<close>. \<open>py_int\<close> is \<^verbatim>\<open>int\<close> on a text that passed
  \<^verbatim>\<open>isdigit\<close>: it reads the decimal digits, which on this range are the ASCII ones, and
  raises \<^verbatim>\<open>ValueError\<close> when more than 4300 digits lead the text (the default limit of
  CPython 3.11) and otherwise when a superscript digit occurs. \<open>zero_pad k n\<close> is
  \<^verbatim>\<open>"%0kd" % n\<close> for \<open>n < 10^k\<close>, and \<open>str_int\<close> is \<^verbatim>\<open>str\<close> on an integer.
\<close>

definition digit_char :: "nat \<Rightarrow> char" where
  "digit_char n = char_of (48 + n)"

fun zero_pad :: "nat \<Rightarrow> nat \<Rightarrow> string" where
  "zero_pad 0 n = []"
| "zero_pad (Suc k) n = digit_char (n div 10 ^ k) # zero_pad k (n mod 10 ^ k)"

fun str_nat :: "nat \<Rightarrow> string" where
  "str_nat n = (if n < 10 then [digit_char n] else str_nat (n div 10) @ [digit_char (n mod 10)])"

definition str_int :: "int \<Rightarrow> string" where
  "str_int i = (if i < 0 then ''-'' @ str_nat (nat (- i)) else str_nat (nat i))"

definition is_space_char :: "char \<Rightarrow> bool" where
  "is_space_char ch =
     (let cp = (of_char ch :: nat)
      in (9 \<le> cp \<and> cp \<le> 13) \<or> (28 \<le> cp \<and> cp \<le> 32) \<or> cp = 133 \<or> cp = 160)"

definition strip :: "string \<Rightarrow> string" where
  "strip text = rev (dropWhile is_space_char (rev (dropWhile is_space_char text)))"

definition is_decimal_char :: "char \<Rightarrow> bool" where
  "is_decimal_char ch = (48 \<le> (of_char ch :: nat) \<and> (of_char ch :: nat) \<le> 57)"

definition is_digit_char :: "char \<Rightarrow> bool" where
  "is_digit_char ch =
     (is_decimal_char ch \<or> (of_char ch :: nat) = 178 \<or> (of_char ch :: nat) = 179 \<or>
      (of_char ch :: nat) = 185)"

definition isdigit :: "string \<Rightarrow> bool" where
  "isdigit text = (text \<noteq> [] \<and> list_all is_digit_char text)"

definition int_of_digits :: "string \<Rightarrow> int" where
  "int_of_digits text = foldl (\<lambda>acc ch. acc * 10 + (int (of_char ch) - 48)) 0 text"

definition py_int :: "string \<Rightarrow> py_error + int" where
  "py_int text =
     (if 4300 < length (takeWhile is_decimal_char text) then
        Inl (ValueError ''Exceeds the limit (4300 digits) for integer string conversion'')
      else if \<not> list_all is_decimal_char text then
        Inl (ValueError ''invalid literal for int() with base 10'')
      else Inr (int_of_digits text))"

subsection \<open>CountdownWidget\<close>

datatype btn_text = Pause_sign | Play_sign

datatype countdown_call = On_complete int | Play_alarm | Notify_cb string int

record countdown =
  total_seconds :: int
  remaining_seconds :: int
  hours :: int
  minutes :: int
  seconds :: int
  total_minutes :: "int option"
  paused :: "bool option"
  timer_active :: bool
  pause_btn :: btn_text
  label :: string
  notify_cb :: bool
  calls :: "countdown_call list"

text \<open>
  \<^verbatim>\<open>CountdownWidget.__init__(label, default_minutes, on_complete, notify_cb)\<close>. Neither
  \<^verbatim>\<open>total_minutes\<close> nor \<^verbatim>\<open>_paused\<close> is assigned here. An empty label falls back to
  \<^verbatim>\<open>f"{default_minutes} min"\<close>.
\<close>

definition CountdownWidget :: "string \<Rightarrow> int \<Rightarrow> bool \<Rightarrow> countdown" where
  "CountdownWidget lbl default_minutes has_notify =
     \<lparr> total_seconds = max 1 (default_minutes * 60),
       remaining_seconds = max 1 (default_minutes * 60),
       hours = default_minutes div 60,
       minutes = default_minutes mod 60,
       seconds = 0,
       total_minutes = None,
       paused = None,
       timer_active = False,
       pause_btn = Pause_sign,
       label = (if lbl = [] then str_int default_minutes @ '' min'' else lbl),
       notify_cb = has_notify,
       calls = [] \<rparr>"

definition get_active_total_seconds :: "countdown \<Rightarrow> int" where
  "get_active_total_seconds c = hours c * 3600 + minutes c * 60 + seconds c"

definition start :: "countdown \<Rightarrow> countdown" where
  "start c =
     (let total = get_active_total_seconds c in
      if total \<le> 0 \<or> timer_active c then c
      else c\<lparr> remaining_seconds := total,
              total_seconds := total,
              total_minutes := Some (max 1 (total div 60)),
              timer_active := True,
              paused := Some False,
              pause_btn := Pause_sign \<rparr>)"

definition reset :: "countdown \<Rightarrow> countdown" where
  "reset c =
     c\<lparr> timer_active := False,
        remaining_seconds := get_active_total_seconds c,
        paused := Some False,
        pause_btn := Pause_sign \<rparr>"

text \<open>
  \<^verbatim>\<open>toggle_pause\<close>: the guard reads \<^verbatim>\<open>self._paused\<close> only when the timer is not
  active (\<^verbatim>\<open>and\<close> short-circuits). The result is the widget after the call and the
  exception the call raised, if any.
\<close>

definition toggle_pause :: "countdown \<Rightarrow> countdown \<times> py_error option" where
  "toggle_pause c =
     (if \<not> timer_active c then
        (case paused c of
           None \<Rightarrow> (c, Some (AttributeError ''_paused''))
         | Some p \<Rightarrow>
             if \<not> p then (c, None)
             else (c\<lparr> timer_active := True, paused := Some False, pause_btn := Pause_sign \<rparr>, None))
      else (c\<lparr> timer_active := False, paused := Some True, pause_btn := Play_sign \<rparr>, None))"

text \<open>
  \<^verbatim>\<open>_tick\<close>: one second of the periodic driver. On reaching zero it stops the driver,
  calls \<^verbatim>\<open>on_complete(self.total_minutes)\<close>, plays the alarm and calls the notifier
  when one was given.
\<close>

definition tick :: "countdown \<Rightarrow> countdown \<times> py_error option" where
  "tick c =
     (let c1 = c\<lparr> remaining_seconds := remaining_seconds c - 1 \<rparr> in
      if remaining_seconds c1 \<le> 0 then
        (let c2 = c1\<lparr> timer_active := False, remaining_seconds := 0 \<rparr> in
         case total_minutes c2 of
           None \<Rightarrow> (c2, Some (AttributeError ''total_minutes''))
         | Some m \<Rightarrow>
             (c2\<lparr> calls := calls c2 @ [On_complete m, Play_alarm] @
                        (if notify_cb c2 then [Notify_cb (label c2) m] else []) \<rparr>, None))
      else (c1, None))"

text \<open>\<open>ticks n\<close> applies \<^verbatim>\<open>_tick\<close> \<open>n\<close> times, stopping at the first exception.\<close>

fun ticks :: "nat \<Rightarrow> countdown \<Rightarrow> countdown \<times> py_error option" where
  "ticks 0 c = (c, None)"
| "ticks (Suc n) c =
     (case tick c of
        (c', None) \<Rightarrow> ticks n c'
      | (c', Some e) \<Rightarrow> (c', Some e))"

subsection \<open>TimerEditDialog and CountdownWidget.open_editor\<close>

record timer_edit_dialog =
  pending_hours :: int
  pending_minutes :: int
  pending_seconds :: int

definition TimerEditDialog :: "int \<Rightarrow> int \<Rightarrow> int \<Rightarrow> timer_edit_dialog" where
  "TimerEditDialog h m s = \<lparr> pending_hours = h, pending_minutes = m, pending_seconds = s \<rparr>"

text \<open>
  \<^verbatim>\<open>_commit_field\<close>: \<^verbatim>\<open>val = int(text) if text.isdigit() else 0\<close> on the stripped
  text of the edit, then the clamp of the field. It is a slot of \<^verbatim>\<open>editingFinished\<close>:
  an exception raised by \<^verbatim>\<open>int\<close> is reported by the event loop and the dialog goes
  on with its pending values as they were.
\<close>

definition field_value :: "string \<Rightarrow> py_error + int" where
  "field_value text = (let t = strip text in if isdigit t then py_int t else Inr 0)"

definition commit_field ::
    "string \<Rightarrow> string \<Rightarrow> timer_edit_dialog \<Rightarrow> timer_edit_dialog \<times> py_error option" where
  "commit_field field text d =
     (case field_value text of
        Inl e \<Rightarrow> (d, Some e)
      | Inr val \<Rightarrow>
          (if field = ''h'' then d\<lparr> pending_hours := max 0 (min 23 val) \<rparr>
           else if field = ''m'' then d\<lparr> pending_minutes := max 0 (min 59 val) \<rparr>
           else if field = ''s'' then d\<lparr> pending_seconds := max 0 (min 59 val) \<rparr>
           else d, None))"

definition nudge :: "string \<Rightarrow> int \<Rightarrow> timer_edit_dialog \<Rightarrow> timer_edit_dialog" where
  "nudge field delta d =
     (if field = ''h'' then d\<lparr> pending_hours := max 0 (min 23 (pending_hours d + delta)) \<rparr>
      else if field = ''m'' then d\<lparr> pending_minutes := max 0 (min 59 (pending_minutes d + delta)) \<rparr>
      else if field = ''s'' then d\<lparr> pending_seconds := max 0 (min 59 (pending_seconds d + delta)) \<rparr>
      else d)"

definition result_time :: "timer_edit_dialog \<Rightarrow> int \<times> int \<times> int" where
  "result_time d = (pending_hours d, pending_minutes d, pending_seconds d)"

text \<open>
  What the user does while the modal dialog runs: a sequence of committed fields and
  arrow presses, closed by Save (\<open>Accepted\<close>) or Cancel (\<open>Rejected\<close>).
\<close>

datatype dialog_action = Commit string string | Nudge string int

datatype dialog_code = Accepted | Rejected

fun dialog_step :: "timer_edit_dialog \<Rightarrow> dialog_action \<Rightarrow> timer_edit_dialog" where
  "dialog_step d (Commit field text) = fst (commit_field field text d)"
| "dialog_step d (Nudge field delta) = nudge field delta d"

definition open_editor :: "dialog_action list \<Rightarrow> dialog_code \<Rightarrow> countdown \<Rightarrow> countdown" where
  "open_editor actions code c =
     (let dialog = foldl dialog_step (TimerEditDialog (hours c) (minutes c) (seconds c)) actions in
      if code = Accepted then
        (case result_time dialog of
           (h, m, s) \<Rightarrow>
             (let total = h * 3600 + m * 60 + s in
              if total > 0 then
                c\<lparr> hours := h, minutes := m, seconds := s,
                   total_seconds := total,
                   remaining_seconds := total,
                   total_minutes := Some (max 1 (total div 60)),
                   timer_active := False,
                   paused := Some False,
                   pause_btn := Pause_sign \<rparr>
              else c))
      else c)"

subsection \<open>StopwatchWidget\<close>

record stopwatch =
  elapsed_seconds :: int
  sw_timer_active :: bool
  sw_pause_btn :: btn_text
  on_finish_calls :: "int list"

definition StopwatchWidget :: stopwatch where
  "StopwatchWidget =
     \<lparr> elapsed_seconds = 0, sw_timer_active = False, sw_pause_btn = Pause_sign,
       on_finish_calls = [] \<rparr>"

definition sw_start :: "stopwatch \<Rightarrow> stopwatch" where
  "sw_start s = (if sw_timer_active s then s else s\<lparr> sw_timer_active := True \<rparr>)"

definition sw_toggle_pause :: "stopwatch \<Rightarrow> stopwatch" where
  "sw_toggle_pause s =
     (if sw_timer_active s then s\<lparr> sw_timer_active := False, sw_pause_btn := Play_sign \<rparr>
      else s\<lparr> sw_timer_active := True, sw_pause_btn := Pause_sign \<rparr>)"

definition sw_reset :: "stopwatch \<Rightarrow> stopwatch" where
  "sw_reset s = s\<lparr> sw_timer_active := False, elapsed_seconds := 0, sw_pause_btn := Pause_sign \<rparr>"

definition finish :: "stopwatch \<Rightarrow> stopwatch" where
  "finish s =
     (let secs = elapsed_seconds s;
          s1 = s\<lparr> sw_timer_active := False, elapsed_seconds := 0, sw_pause_btn := Pause_sign \<rparr>
      in if secs > 0 then s1\<lparr> on_finish_calls := on_finish_calls s1 @ [secs] \<rparr> else s1)"

definition sw_tick :: "stopwatch \<Rightarrow> stopwatch" where
  "sw_tick s = s\<lparr> elapsed_seconds := elapsed_seconds s + 1 \<rparr>"

subsection \<open>Naive datetimes\<close>

text \<open>
  A \<^verbatim>\<open>datetime\<close> without time zone, as \<^verbatim>\<open>datetime.utcnow()\<close> returns it and as every
  caller of \<^verbatim>\<open>log_session\<close> passes it. The calendar functions are those of the
  standard library (\<^verbatim>\<open>_is_leap\<close>, \<^verbatim>\<open>_days_in_month\<close>, \<^verbatim>\<open>_days_before_year\<close>,
  \<^verbatim>\<open>_days_before_month\<close>, \<^verbatim>\<open>_ymd2ord\<close>); \<^verbatim>\<open>weekday()\<close> is 0 on Monday and 6 on
  Sunday.
\<close>

record datetime =
  year :: nat
  month :: nat
  day :: nat
  hour :: nat
  minute :: nat
  second :: nat
  microsecond :: nat

definition is_leap :: "nat \<Rightarrow> bool" where
  "is_leap y = (y mod 4 = 0 \<and> (y mod 100 \<noteq> 0 \<or> y mod 400 = 0))"

definition days_in_month :: "nat \<Rightarrow> nat \<Rightarrow> nat" where
  "days_in_month y m =
     (if m = 2 then (if is_leap y then 29 else 28)
      else if m = 4 \<or> m = 6 \<or> m = 9 \<or> m = 11 then 30 else 31)"

definition days_before_year :: "nat \<Rightarrow> int" where
  "days_before_year y =
     (int y - 1) * 365 + (int y - 1) div 4 - (int y - 1) div 100 + (int y - 1) div 400"

definition days_before_month :: "nat \<Rightarrow> nat \<Rightarrow> int" where
  "days_before_month y m =
     [- 1, 0, 31, 59, 90, 120, 151, 181, 212, 243, 273, 304, 334] ! m
     + (if m > 2 \<and> is_leap y then 1 else 0)"

definition toordinal :: "datetime \<Rightarrow> int" where
  "toordinal d = days_before_year (year d) + days_before_month (year d) (month d) + int (day d)"

definition weekday :: "datetime \<Rightarrow> nat" where
  "weekday d = nat ((toordinal d + 6) mod 7)"

definition valid_datetime :: "datetime \<Rightarrow> bool" where
  "valid_datetime d =
     (1 \<le> year d \<and> year d \<le> 9999 \<and> 1 \<le> month d \<and> month d \<le> 12 \<and>
      1 \<le> day d \<and> day d \<le> days_in_month (year d) (month d) \<and>
      hour d < 24 \<and> minute d < 60 \<and> second d < 60 \<and> microsecond d < 1000000)"

text \<open>
  Comparison of naive datetimes: lexicographic on the fields, most significant first.
\<close>

definition dt_key :: "datetime \<Rightarrow> nat \<times> nat \<times> nat \<times> nat \<times> nat \<times> nat \<times> nat" where
  "dt_key d = (year d, month d, day d, hour d, minute d, second d, microsecond d)"

definition dt_le :: "datetime \<Rightarrow> datetime \<Rightarrow> bool" where
  "dt_le a b = (dt_key a \<le> dt_key b)"

definition dt_less :: "datetime \<Rightarrow> datetime \<Rightarrow> bool" where
  "dt_less a b = (dt_key a < dt_key b)"

text \<open>
  Two notions for stating what \<^verbatim>\<open>get_stats\<close> computes: a datetime at midnight, and
  two datetimes with the same time of day.
\<close>

definition at_midnight :: "datetime \<Rightarrow> bool" where
  "at_midnight d = (hour d = 0 \<and> minute d = 0 \<and> second d = 0 \<and> microsecond d = 0)"

definition same_time :: "datetime \<Rightarrow> datetime \<Rightarrow> bool" where
  "same_time a b =
     (hour a = hour b \<and> minute a = minute b \<and> second a = second b \<and>
      microsecond a = microsecond b)"

text \<open>
  Adding and subtracting whole days (\<^verbatim>\<open>d + timedelta(days=n)\<close>,
  \<^verbatim>\<open>d - timedelta(days=n)\<close>), one calendar day at a time; the time of day is kept.
  Leaving the years 1..9999 raises \<^verbatim>\<open>OverflowError\<close>.
\<close>

definition next_day :: "datetime \<Rightarrow> py_error + datetime" where
  "next_day d =
     (if day d < days_in_month (year d) (month d) then Inr (d\<lparr> day := day d + 1 \<rparr>)
      else if month d < 12 then Inr (d\<lparr> month := month d + 1, day := 1 \<rparr>)
      else if year d < 9999 then Inr (d\<lparr> year := year d + 1, month := 1, day := 1 \<rparr>)
      else Inl (OverflowError ''date value out of range''))"

definition prev_day :: "datetime \<Rightarrow> py_error + datetime" where
  "prev_day d =
     (if 1 < day d then Inr (d\<lparr> day := day d - 1 \<rparr>)
      else if 1 < month d then
        Inr (d\<lparr> month := month d - 1, day := days_in_month (year d) (month d - 1) \<rparr>)
      else if 1 < year d then Inr (d\<lparr> year := year d - 1, month := 12, day := 31 \<rparr>)
      else Inl (OverflowError ''date value out of range''))"

fun plus_days :: "nat \<Rightarrow> datetime \<Rightarrow> py_error + datetime" where
  "plus_days 0 d = Inr d"
| "plus_days (Suc n) d = (case next_day d of Inl e \<Rightarrow> Inl e | Inr d' \<Rightarrow> plus_days n d')"

fun minus_days :: "nat \<Rightarrow> datetime \<Rightarrow> py_error + datetime" where
  "minus_days 0 d = Inr d"
| "minus_days (Suc n) d = (case prev_day d of Inl e \<Rightarrow> Inl e | Inr d' \<Rightarrow> minus_days n d')"

text \<open>
  \<^verbatim>\<open>isoformat()\<close>: \<^verbatim>\<open>"%04d-%02d-%02dT%02d:%02d:%02d"\<close>, followed by \<^verbatim>\<open>".%06d"\<close> when
  the microsecond is not zero. \<open>zero_pad k n\<close> is \<open>n\<close> in \<open>k\<close> decimal digits with
  leading zeros (the fields of a datetime never need more).
\<close>

definition isoformat :: "datetime \<Rightarrow> string" where
  "isoformat d =
     zero_pad 4 (year d) @ ''-'' @ zero_pad 2 (month d) @ ''-'' @ zero_pad 2 (day d) @ ''T'' @
     zero_pad 2 (hour d) @ '':'' @ zero_pad 2 (minute d) @ '':'' @ zero_pad 2 (second d) @
     (if microsecond d = 0 then [] else ''.'' @ zero_pad 6 (microsecond d))"

text \<open>\<^verbatim>\<open>strftime("%a")\<close> and \<^verbatim>\<open>strftime("%b")\<close> in the C locale.\<close>

definition strftime_a :: "datetime \<Rightarrow> string" where
  "strftime_a d = [''Mon'', ''Tue'', ''Wed'', ''Thu'', ''Fri'', ''Sat'', ''Sun''] ! weekday d"

definition strftime_b :: "datetime \<Rightarrow> string" where
  "strftime_b d =
     [''Jan'', ''Feb'', ''Mar'', ''Apr'', ''May'', ''Jun'',
      ''Jul'', ''Aug'', ''Sep'', ''Oct'', ''Nov'', ''Dec''] ! (month d - 1)"

subsection \<open>DataStore: the SQLite database\<close>

text \<open>
  The three tables of \<^verbatim>\<open>ensure_schema\<close>, each a list of rows in insertion order, and
  the \<^verbatim>\<open>AUTOINCREMENT\<close> counters. \<^verbatim>\<open>TEXT\<close> columns are strings. An \<^verbatim>\<open>INTEGER\<close> of
  SQLite is a signed 64-bit number (\<open>sqlite_integer\<close>), while a Python \<^verbatim>\<open>int\<close> is
  unbounded: binding an \<^verbatim>\<open>int\<close> outside that range to a statement raises
  \<^verbatim>\<open>OverflowError\<close>, and \<^verbatim>\<open>SUM\<close> raises \<^verbatim>\<open>OperationalError\<close> when its running total
  leaves the range. Both are modelled for the session methods \<^verbatim>\<open>log_session\<close> and
  \<^verbatim>\<open>get_stats\<close>; the claims below use the other methods at small ids only. The
  \<^verbatim>\<open>AUTOINCREMENT\<close> counters start at \<open>0\<close> and grow by one per row; their exhaustion at
  \<open>2^63 - 1\<close> is not modelled. \<open>ensure_schema\<close> is the store that \<^verbatim>\<open>ensure_schema()\<close> creates in
  a new file. A connection carries SQLite's per-connection foreign-key switch.
  \<^verbatim>\<open>_connect\<close> is \<^verbatim>\<open>sqlite3.connect(self.db_path)\<close> and nothing else: the switch
  keeps SQLite's default, off, since no statement of the repository executes
  \<^verbatim>\<open>PRAGMA foreign_keys = ON\<close>. With the switch off, the
  \<^verbatim>\<open>FOREIGN KEY ... ON DELETE CASCADE\<close> clauses of the schema are parsed and not
  enforced.
\<close>

record subject_row =
  subj_id :: int
  subj_name :: string
  subj_color :: string
  subj_created_at :: string

record session_row =
  sess_id :: int
  sess_subject_id :: int
  sess_minutes :: int
  occurred_at :: string

record chapter_row =
  chap_id :: int
  chap_subject_id :: int
  title :: string
  position :: int
  chap_done :: int
  chap_notes :: string

record database =
  subjects :: "subject_row list"
  sessions :: "session_row list"
  chapters :: "chapter_row list"
  subjects_seq :: int
  sessions_seq :: int
  chapters_seq :: int

record connection =
  foreign_keys :: bool

definition connect :: connection where
  "connect = \<lparr> foreign_keys = False \<rparr>"

definition ensure_schema :: database where
  "ensure_schema =
     \<lparr> subjects = [], sessions = [], chapters = [],
       subjects_seq = 0, sessions_seq = 0, chapters_seq = 0 \<rparr>"

text \<open>
  \<^verbatim>\<open>DELETE FROM subjects WHERE id = ?\<close> on a connection: the matching parent rows go;
  the rows of \<^verbatim>\<open>sessions\<close> and \<^verbatim>\<open>chapters\<close> that reference a deleted parent go with
  them only when the connection enforces foreign keys.
\<close>

definition sql_delete_subject :: "connection \<Rightarrow> int \<Rightarrow> database \<Rightarrow> database" where
  "sql_delete_subject conn sid db =
     (let db1 = db\<lparr> subjects := filter (\<lambda>r. subj_id r \<noteq> sid) (subjects db) \<rparr> in
      if foreign_keys conn \<and> list_ex (\<lambda>r. subj_id r = sid) (subjects db) then
        db1\<lparr> sessions := filter (\<lambda>r. sess_subject_id r \<noteq> sid) (sessions db1),
             chapters := filter (\<lambda>r. chap_subject_id r \<noteq> sid) (chapters db1) \<rparr>
      else db1)"

definition create_subject :: "database \<Rightarrow> string \<Rightarrow> string \<Rightarrow> string \<Rightarrow> py_error + database \<times> int" where
  "create_subject db name color current_timestamp =
     (if list_ex (\<lambda>r. subj_name r = strip name) (subjects db) then
        Inl (IntegrityError ''UNIQUE constraint failed: subjects.name'')
      else
        (let new_id = subjects_seq db + 1 in
         Inr (db\<lparr> subjects := subjects db @
                    [\<lparr> subj_id = new_id, subj_name = strip name, subj_color = strip color,
                       subj_created_at = current_timestamp \<rparr>],
                  subjects_seq := new_id \<rparr>, new_id)))"

definition delete_subject :: "database \<Rightarrow> int \<Rightarrow> database" where
  "delete_subject db subject_id = sql_delete_subject connect subject_id db"

definition sqlite_integer :: "int \<Rightarrow> bool" where
  "sqlite_integer i = (- (2 ^ 63) \<le> i \<and> i < 2 ^ 63)"

text \<open>
  \<^verbatim>\<open>log_session(subject_id, minutes, when=None)\<close>; \<open>utcnow\<close> is the clock reading taken
  when no \<^verbatim>\<open>when\<close> is given. The arguments go into the \<^verbatim>\<open>INSERT\<close> as they are, with
  no validation; \<^verbatim>\<open>execute\<close> raises \<^verbatim>\<open>OverflowError\<close> on an integer that does not fit
  an \<^verbatim>\<open>INTEGER\<close>, and then no row is written.
\<close>

definition log_session ::
    "database \<Rightarrow> int \<Rightarrow> int \<Rightarrow> datetime option \<Rightarrow> datetime \<Rightarrow> py_error + database" where
  "log_session db subject_id mins when utcnow =
     (let w = (case when of Some t \<Rightarrow> t | None \<Rightarrow> utcnow);
          new_id = sessions_seq db + 1
      in if sqlite_integer subject_id \<and> sqlite_integer mins then
           Inr (db\<lparr> sessions := sessions db @
                       [\<lparr> sess_id = new_id, sess_subject_id = subject_id, sess_minutes = mins,
                          occurred_at = isoformat w \<rparr>],
                    sessions_seq := new_id \<rparr>)
         else Inl (OverflowError ''Python int too large to convert to SQLite INTEGER''))"

text \<open>
  Comparison of \<^verbatim>\<open>TEXT\<close> values in SQLite (collation \<^verbatim>\<open>BINARY\<close>): byte by byte, a
  proper prefix before the longer text.
\<close>

fun text_less :: "string \<Rightarrow> string \<Rightarrow> bool" where
  "text_less [] [] = False"
| "text_less [] (y # ys) = True"
| "text_less (x # xs) [] = False"
| "text_less (x # xs) (y # ys) =
     (if x = y then text_less xs ys else (of_char x :: nat) < of_char y)"

definition text_ge :: "string \<Rightarrow> string \<Rightarrow> bool" where
  "text_ge a b = (\<not> text_less a b)"

text \<open>
  \<^verbatim>\<open>COALESCE(SUM(minutes),0)\<close> over the selected rows, in the order of the table scan:
  \<^verbatim>\<open>SUM\<close> adds the integers one by one in a signed 64-bit accumulator and the
  statement fails with \<^verbatim>\<open>integer overflow\<close> once a partial sum leaves the range; over
  no rows it is \<^verbatim>\<open>NULL\<close>, which \<^verbatim>\<open>COALESCE\<close> turns into \<open>0\<close>.
\<close>

fun sql_sum_from :: "int \<Rightarrow> int list \<Rightarrow> py_error + int" where
  "sql_sum_from acc [] = Inr acc"
| "sql_sum_from acc (x # xs) =
     (if sqlite_integer (acc + x) then sql_sum_from (acc + x) xs
      else Inl (OperationalError ''integer overflow''))"

definition coalesce_sum :: "int list \<Rightarrow> py_error + int" where
  "coalesce_sum xs = sql_sum_from 0 xs"

text \<open>
  The two queries of \<^verbatim>\<open>get_stats\<close>:
  \<^verbatim>\<open>SELECT COALESCE(SUM(minutes),0) FROM sessions WHERE occurred_at >= ?\<close> and the same
  with \<^verbatim>\<open>AND occurred_at < ?\<close>, the parameters being \<^verbatim>\<open>isoformat()\<close> texts.
\<close>

definition total_since :: "database \<Rightarrow> datetime \<Rightarrow> py_error + int" where
  "total_since db ts =
     coalesce_sum (map sess_minutes
       (filter (\<lambda>r. text_ge (occurred_at r) (isoformat ts)) (sessions db)))"

definition total_between :: "database \<Rightarrow> datetime \<Rightarrow> datetime \<Rightarrow> py_error + int" where
  "total_between db start_dt stop_dt =
     coalesce_sum (map sess_minutes
       (filter (\<lambda>r. text_ge (occurred_at r) (isoformat start_dt) \<and>
                     text_less (occurred_at r) (isoformat stop_dt)) (sessions db)))"

record stats =
  stats_day :: int
  stats_week :: int
  stats_month :: int
  bars :: "(string \<times> int) list"
  month_cards :: "(string \<times> int) list"

text \<open>
  The two loops of \<^verbatim>\<open>get_stats\<close>, statement by statement; the first exception ends
  the call.
\<close>

fun bars_loop :: "database \<Rightarrow> datetime \<Rightarrow> nat list \<Rightarrow> py_error + (string \<times> int) list" where
  "bars_loop db sunday_start [] = Inr []"
| "bars_loop db sunday_start (offset # offsets) =
     (case plus_days offset sunday_start of
        Inl e \<Rightarrow> Inl e
      | Inr start_dt \<Rightarrow>
          (case plus_days 1 start_dt of
             Inl e \<Rightarrow> Inl e
           | Inr stop_dt \<Rightarrow>
               (case total_between db start_dt stop_dt of
                  Inl e \<Rightarrow> Inl e
                | Inr tot \<Rightarrow>
                    (case bars_loop db sunday_start offsets of
                       Inl e \<Rightarrow> Inl e
                     | Inr rest \<Rightarrow> Inr ((strftime_a start_dt, tot) # rest)))))"

fun month_cards_loop :: "database \<Rightarrow> nat \<Rightarrow> datetime \<Rightarrow> py_error + (string \<times> int) list" where
  "month_cards_loop db 0 m_start = Inr []"
| "month_cards_loop db (Suc n) m_start =
     (case plus_days 32 m_start of
        Inl e \<Rightarrow> Inl e
      | Inr later \<Rightarrow>
          (case total_between db m_start (later\<lparr> day := 1 \<rparr>) of
             Inl e \<Rightarrow> Inl e
           | Inr tot \<Rightarrow>
               (case minus_days 1 m_start of
                  Inl e \<Rightarrow> Inl e
                | Inr earlier \<Rightarrow>
                    (case month_cards_loop db n (earlier\<lparr> day := 1 \<rparr>) of
                       Inl e \<Rightarrow> Inl e
                     | Inr rest \<Rightarrow> Inr ((strftime_b m_start, tot) # rest)))))"

text \<open>\<^verbatim>\<open>get_stats\<close>, with the reading \<open>now\<close> of \<^verbatim>\<open>datetime.utcnow()\<close> as a parameter.\<close>

definition get_stats :: "database \<Rightarrow> datetime \<Rightarrow> py_error + stats" where
  "get_stats db now =
     (let day_start = \<lparr> year = year now, month = month now, day = day now,
                        hour = 0, minute = 0, second = 0, microsecond = 0 \<rparr>
      in case minus_days ((weekday day_start + 1) mod 7) day_start of
           Inl e \<Rightarrow> Inl e
         | Inr week_start \<Rightarrow>
             (let month_start = \<lparr> year = year now, month = month now, day = 1,
                                  hour = 0, minute = 0, second = 0, microsecond = 0 \<rparr>
              in case total_since db day_start of
                   Inl e \<Rightarrow> Inl e
                 | Inr day_total \<Rightarrow>
              (case total_since db week_start of
                   Inl e \<Rightarrow> Inl e
                 | Inr week_total \<Rightarrow>
              (case total_since db month_start of
                   Inl e \<Rightarrow> Inl e
                 | Inr month_total \<Rightarrow>
              (case minus_days ((weekday day_start + 1) mod 7) day_start of
                   Inl e \<Rightarrow> Inl e
                 | Inr sunday_start \<Rightarrow>
              (case bars_loop db sunday_start [0 ..< 7] of
                   Inl e \<Rightarrow> Inl e
                 | Inr bs \<Rightarrow>
              (case month_cards_loop db 3 month_start of
                   Inl e \<Rightarrow> Inl e
                 | Inr cards \<Rightarrow>
                     Inr \<lparr> stats_day = day_total, stats_week = week_total,
                           stats_month = month_total, bars = bs,
                           month_cards = cards \<rparr>)))))))"

text \<open>Chapters.\<close>

definition list_chapters :: "database \<Rightarrow> int \<Rightarrow> chapter_row list" where
  "list_chapters db subject_id =
     sort_key (\<lambda>r. (position r, chap_id r))
       (filter (\<lambda>r. chap_subject_id r = subject_id) (chapters db))"

definition max_position :: "database \<Rightarrow> int \<Rightarrow> int" where
  "max_position db subject_id =
     (case map position (filter (\<lambda>r. chap_subject_id r = subject_id) (chapters db)) of
        [] \<Rightarrow> 0
      | p # ps \<Rightarrow> fold max ps p)"

definition add_chapter :: "database \<Rightarrow> int \<Rightarrow> string \<Rightarrow> database" where
  "add_chapter db subject_id ttl =
     (let max_pos = max_position db subject_id;
          new_id = chapters_seq db + 1
      in db\<lparr> chapters := chapters db @
                 [\<lparr> chap_id = new_id, chap_subject_id = subject_id, title = strip ttl,
                    position = max_pos + 1, chap_done = 0, chap_notes = [] \<rparr>],
              chapters_seq := new_id \<rparr>)"

definition toggle_chapter :: "database \<Rightarrow> int \<Rightarrow> bool \<Rightarrow> database" where
  "toggle_chapter db chapter_id dn =
     db\<lparr> chapters := map (\<lambda>r. if chap_id r = chapter_id then r\<lparr> chap_done := (if dn then 1 else 0) \<rparr> else r)
                         (chapters db) \<rparr>"

definition update_notes :: "database \<Rightarrow> int \<Rightarrow> string \<Rightarrow> database" where
  "update_notes db chapter_id txt =
     db\<lparr> chapters := map (\<lambda>r. if chap_id r = chapter_id then r\<lparr> chap_notes := txt \<rparr> else r)
                         (chapters db) \<rparr>"

definition delete_chapter :: "database \<Rightarrow> int \<Rightarrow> database" where
  "delete_chapter db chapter_id =
     db\<lparr> chapters := filter (\<lambda>r. chap_id r \<noteq> chapter_id) (chapters db) \<rparr>"


subsection \<open>Floats\<close>

text \<open>
  A Python \<^verbatim>\<open>float\<close> is an IEEE 754 binary64 number; a finite one is the rational it
  denotes. \<open>round_to_double\<close> rounds a rational to the nearest double, ties to the even
  significand, with 53 significant bits. It covers the normal range (magnitudes from
  \<open>2^-1022\<close> up to \<open>2^1024\<close>); the statements below stay inside it. \<open>float_exponent x\<close> is the \<open>e\<close> with \<open>2^e \<le> x < 2^(e+1)\<close> for positive \<open>x\<close>.
  \<^verbatim>\<open>a / b\<close> on integers is the correctly rounded quotient; both divisions of the
  program have a non-zero divisor.
\<close>

definition float_exponent :: "rat \<Rightarrow> int" where
  "float_exponent x = (if 1 \<le> x then bitlen \<lfloor>x\<rfloor> - 1 else - bitlen (\<lceil>1 / x\<rceil> - 1))"

definition round_half_even :: "rat \<Rightarrow> int" where
  "round_half_even x =
     (let f = \<lfloor>x\<rfloor>; r = x - of_int f
      in if r < 1 / 2 then f else if 1 / 2 < r then f + 1 else if even f then f else f + 1)"

definition round_to_double :: "rat \<Rightarrow> rat" where
  "round_to_double x =
     (if x = 0 then 0
      else (let e = float_exponent \<bar>x\<bar> - 52
            in sgn x * of_int (round_half_even (\<bar>x\<bar> / power_int 2 e)) * power_int 2 e))"

definition truediv :: "int \<Rightarrow> int \<Rightarrow> rat" where
  "truediv a b = round_to_double (of_int a / of_int b)"

definition float_mul :: "rat \<Rightarrow> rat \<Rightarrow> rat" where
  "float_mul x y = round_to_double (x * y)"

definition math_ceil :: "rat \<Rightarrow> int" where
  "math_ceil x = \<lceil>x\<rceil>"

definition int_of_float :: "rat \<Rightarrow> int" where
  "int_of_float x = (if 0 \<le> x then \<lfloor>x\<rfloor> else \<lceil>x\<rceil>)"

subsection \<open>StudyView\<close>

record list_item =
  item_text :: string
  checked :: bool
  user_role :: int

record study_view =
  store :: database
  subject_id :: "int option"
  loading_chapters :: bool
  chapter_list :: "list_item list"
  progress_indicator :: int

text \<open>\<^verbatim>\<open>not self.subject_id\<close> holds for \<^verbatim>\<open>None\<close> and for \<open>0\<close>.\<close>

definition truthy :: "int option \<Rightarrow> bool" where
  "truthy x = (case x of None \<Rightarrow> False | Some n \<Rightarrow> n \<noteq> 0)"

text \<open>
  \<^verbatim>\<open>_log_session\<close> is the \<^verbatim>\<open>on_complete\<close> callback of the 30-minute countdown and
  \<^verbatim>\<open>_log_stopwatch\<close> the \<^verbatim>\<open>on_finish\<close> callback of the stopwatch; \<open>utcnow\<close> is the clock
  reading each takes. The result is the view after the call and the exception the
  call raised, if any.
\<close>

definition log_session_cb :: "study_view \<Rightarrow> int \<Rightarrow> datetime \<Rightarrow> study_view \<times> py_error option" where
  "log_session_cb v mins utcnow =
     (case subject_id v of
        None \<Rightarrow> (v, None)
      | Some sid \<Rightarrow>
          if sid = 0 then (v, None)
          else (case log_session (store v) sid mins (Some utcnow) utcnow of
                  Inl e \<Rightarrow> (v, Some e)
                | Inr db \<Rightarrow> (v\<lparr> store := db \<rparr>, None)))"

definition stopwatch_minutes :: "int \<Rightarrow> int" where
  "stopwatch_minutes secs = max 1 (math_ceil (truediv secs 60))"

definition log_stopwatch :: "study_view \<Rightarrow> int \<Rightarrow> datetime \<Rightarrow> study_view \<times> py_error option" where
  "log_stopwatch v secs utcnow =
     (case subject_id v of
        None \<Rightarrow> (v, None)
      | Some sid \<Rightarrow>
          if sid = 0 then (v, None)
          else (case log_session (store v) sid (stopwatch_minutes secs) (Some utcnow) utcnow of
                  Inl e \<Rightarrow> (v, Some e)
                | Inr db \<Rightarrow> (v\<lparr> store := db \<rparr>, None)))"

text \<open>
  \<^verbatim>\<open>_persist_order\<close> calls \<^verbatim>\<open>self.store.reorder_chapters(self.subject_id, ordered_ids)\<close>.
  Looking an attribute up on the store yields the bound method when class
  \<^verbatim>\<open>DataStore\<close> defines it. The class body in \<^verbatim>\<open>data_store.py\<close> defines
  \<^verbatim>\<open>__init__\<close>, \<^verbatim>\<open>_connect\<close>, \<^verbatim>\<open>ensure_schema\<close>, \<^verbatim>\<open>list_subjects\<close>,
  \<^verbatim>\<open>create_subject\<close>, \<^verbatim>\<open>delete_subject\<close>, \<^verbatim>\<open>rename_subject\<close>, \<^verbatim>\<open>log_session\<close>,
  \<^verbatim>\<open>get_stats\<close>, \<^verbatim>\<open>list_chapters\<close>, \<^verbatim>\<open>add_chapter\<close>, \<^verbatim>\<open>toggle_chapter\<close>,
  \<^verbatim>\<open>update_notes\<close> and \<^verbatim>\<open>delete_chapter\<close>, and nothing named
  \<^verbatim>\<open>reorder_chapters\<close>: the lookup yields no method and raises \<^verbatim>\<open>AttributeError\<close>.
\<close>

definition DataStore_reorder_chapters ::
    "(database \<Rightarrow> int \<Rightarrow> int list \<Rightarrow> py_error + database) option" where
  "DataStore_reorder_chapters = None"

definition persist_order :: "study_view \<Rightarrow> int list \<Rightarrow> study_view \<times> py_error option" where
  "persist_order v ordered_ids =
     (if loading_chapters v \<or> \<not> truthy (subject_id v) then (v, None)
      else (case DataStore_reorder_chapters of
              None \<Rightarrow> (v, Some (AttributeError ''reorder_chapters''))
            | Some reorder_chapters \<Rightarrow>
                (case reorder_chapters (store v) (the (subject_id v)) ordered_ids of
                   Inl e \<Rightarrow> (v, Some e)
                 | Inr db \<Rightarrow> (v\<lparr> store := db \<rparr>, None))))"

text \<open>
  \<^verbatim>\<open>refresh_chapters\<close> fills the list widget from \<^verbatim>\<open>list_chapters\<close>;
  \<^verbatim>\<open>_update_progress\<close> counts the checked items and shows
  \<^verbatim>\<open>int((done / total) * 100)\<close>, computed in floats, through
  \<^verbatim>\<open>CircularProgress.set_value\<close>.
\<close>

definition set_value :: "int \<Rightarrow> int" where
  "set_value val = max 0 (min 100 val)"

definition update_progress :: "study_view \<Rightarrow> study_view" where
  "update_progress v =
     (let total = int (length (chapter_list v)) in
      if total = 0 then v\<lparr> progress_indicator := set_value 0 \<rparr>
      else
        (let done_count = int (length (filter checked (chapter_list v)));
             percent = int_of_float (float_mul (truediv done_count total) 100)
         in v\<lparr> progress_indicator := set_value percent \<rparr>))"

definition refresh_chapters :: "study_view \<Rightarrow> study_view" where
  "refresh_chapters v =
     update_progress
       (v\<lparr> chapter_list :=
              map (\<lambda>r. \<lparr> item_text = title r, checked = (chap_done r \<noteq> 0), user_role = chap_id r \<rparr>)
                  (case subject_id v of
                     None \<Rightarrow> []
                   | Some sid \<Rightarrow> list_chapters (store v) sid) \<rparr>)"


section \<open>Properties\<close>

subsection \<open>Countdown: running to completion\<close>

lemma tick_running:
  "1 < remaining_seconds c \<Longrightarrow> tick c = (c\<lparr> remaining_seconds := remaining_seconds c - 1 \<rparr>, None)"
  by (simp add: tick_def Let_def)

lemma ticks_running:
  "int n < remaining_seconds c \<Longrightarrow>
   ticks n c = (c\<lparr> remaining_seconds := remaining_seconds c - int n \<rparr>, None)"
proof (induction n arbitrary: c)
  case 0
  then show ?case by simp
next
  case (Suc n)
  then have "1 < remaining_seconds c" by simp
  then have t: "tick c = (c\<lparr> remaining_seconds := remaining_seconds c - 1 \<rparr>, None)"
    by (rule tick_running)
  have "ticks n (c\<lparr> remaining_seconds := remaining_seconds c - 1 \<rparr>) =
        (c\<lparr> remaining_seconds := remaining_seconds c - 1 - int n \<rparr>, None)"
    using Suc.IH [of "c\<lparr> remaining_seconds := remaining_seconds c - 1 \<rparr>"] Suc.prems by simp
  with t show ?case by (simp add: algebra_simps)
qed

lemma ticks_Suc_end:
  "ticks (Suc n) c = (case ticks n c of (c', None) \<Rightarrow> tick c' | (c', Some e) \<Rightarrow> (c', Some e))"
proof (induction n arbitrary: c)
  case 0
  show ?case by (simp split: prod.splits option.splits)
next
  case (Suc n)
  show ?case
    using Suc.IH by (cases "tick c") (auto split: prod.splits option.splits)
qed

lemma start_fresh:
  "0 < get_active_total_seconds c \<Longrightarrow> \<not> timer_active c \<Longrightarrow>
   start c = c\<lparr> remaining_seconds := get_active_total_seconds c,
                 total_seconds := get_active_total_seconds c,
                 total_minutes := Some (max 1 (get_active_total_seconds c div 60)),
                 timer_active := True,
                 paused := Some False,
                 pause_btn := Pause_sign \<rparr>"
  by (simp add: start_def Let_def)

lemma ticks_before_end:
  assumes "0 < get_active_total_seconds c" and "\<not> timer_active c"
    and "int k < get_active_total_seconds c"
  shows "ticks k (start c) =
           ((start c)\<lparr> remaining_seconds := get_active_total_seconds c - int k \<rparr>, None)"
proof -
  have "remaining_seconds (start c) = get_active_total_seconds c"
    using assms by (simp add: start_fresh)
  with assms(3) ticks_running [of k "start c"] show ?thesis by simp
qed

lemma ticks_to_end:
  assumes "0 < get_active_total_seconds c" and "\<not> timer_active c"
  shows "ticks (nat (get_active_total_seconds c)) (start c) =
           ((start c)\<lparr> remaining_seconds := 0, timer_active := False,
                calls := calls c @
                  [On_complete (max 1 (get_active_total_seconds c div 60)), Play_alarm] @
                  (if notify_cb c then
                     [Notify_cb (label c) (max 1 (get_active_total_seconds c div 60))]
                   else []) \<rparr>, None)"
proof -
  define total where "total = get_active_total_seconds c"
  define k where "k = nat (total - 1)"
  have n: "nat total = Suc k" and kt: "int k < total" and r: "total - int k = 1"
    using assms(1) by (simp_all add: total_def k_def)
  have before: "ticks k (start c) = ((start c)\<lparr> remaining_seconds := 1 \<rparr>, None)"
    using ticks_before_end [OF assms, of k] kt r by (simp add: total_def)
  have last: "tick ((start c)\<lparr> remaining_seconds := 1 \<rparr>) =
      ((start c)\<lparr> remaining_seconds := 0, timer_active := False,
          calls := calls c @ [On_complete (max 1 (total div 60)), Play_alarm] @
            (if notify_cb c then [Notify_cb (label c) (max 1 (total div 60))] else []) \<rparr>, None)"
    using assms by (simp add: tick_def Let_def start_fresh total_def)
  show ?thesis
    unfolding total_def [symmetric] n ticks_Suc_end before using last by simp
qed

text \<open>
  Claim C5. A countdown whose configured total is positive and whose driver is not yet
  active is started; \<^verbatim>\<open>_tick\<close> is then applied exactly \<open>total\<close> times. No call raises,
  the widget ends with \<open>remaining_seconds = 0\<close>, the driver stopped and not paused (the
  completed state), and \<^verbatim>\<open>on_complete\<close> has been called exactly once more than before.
  After any smaller number \<open>k\<close> of ticks the driver is still active, \<open>total - k\<close> seconds
  remain and no callback has been called yet.
\<close>

theorem countdown_runs_to_completion:
  assumes "0 < get_active_total_seconds c" and "\<not> timer_active c"
  shows "snd (ticks (nat (get_active_total_seconds c)) (start c)) = None
       \<and> remaining_seconds (fst (ticks (nat (get_active_total_seconds c)) (start c))) = 0
       \<and> \<not> timer_active (fst (ticks (nat (get_active_total_seconds c)) (start c)))
       \<and> paused (fst (ticks (nat (get_active_total_seconds c)) (start c))) = Some False
       \<and> length (filter (\<lambda>e. \<exists>m. e = On_complete m)
            (calls (fst (ticks (nat (get_active_total_seconds c)) (start c)))))
          = Suc (length (filter (\<lambda>e. \<exists>m. e = On_complete m) (calls c)))
       \<and> (\<forall>k < nat (get_active_total_seconds c).
             snd (ticks k (start c)) = None
           \<and> timer_active (fst (ticks k (start c)))
           \<and> remaining_seconds (fst (ticks k (start c))) = get_active_total_seconds c - int k
           \<and> calls (fst (ticks k (start c))) = calls c)"
proof -
  have early: "\<forall>k < nat (get_active_total_seconds c).
             snd (ticks k (start c)) = None
           \<and> timer_active (fst (ticks k (start c)))
           \<and> remaining_seconds (fst (ticks k (start c))) = get_active_total_seconds c - int k
           \<and> calls (fst (ticks k (start c))) = calls c"
  proof (intro allI impI)
    fix k assume "k < nat (get_active_total_seconds c)"
    then have "int k < get_active_total_seconds c" by simp
    from ticks_before_end [OF assms this] show "snd (ticks k (start c)) = None
           \<and> timer_active (fst (ticks k (start c)))
           \<and> remaining_seconds (fst (ticks k (start c))) = get_active_total_seconds c - int k
           \<and> calls (fst (ticks k (start c))) = calls c"
      using assms by (simp add: start_fresh)
  qed
  have fin: "ticks (nat (get_active_total_seconds c)) (start c) =
           ((start c)\<lparr> remaining_seconds := 0, timer_active := False,
                calls := calls c @
                  [On_complete (max 1 (get_active_total_seconds c div 60)), Play_alarm] @
                  (if notify_cb c then
                     [Notify_cb (label c) (max 1 (get_active_total_seconds c div 60))]
                   else []) \<rparr>, None)"
    by (rule ticks_to_end [OF assms])
  have p: "paused (start c) = Some False"
    using assms by (simp add: start_fresh)
  show ?thesis
    unfolding fin using early p by simp
qed

theorem countdown_runs_to_completion_witness:
  "0 < get_active_total_seconds (CountdownWidget ''5 min break'' 5 True)
   \<and> \<not> timer_active (CountdownWidget ''5 min break'' 5 True)
   \<and> snd (ticks 300 (start (CountdownWidget ''5 min break'' 5 True))) = None
   \<and> remaining_seconds (fst (ticks 300 (start (CountdownWidget ''5 min break'' 5 True)))) = 0
   \<and> \<not> timer_active (fst (ticks 300 (start (CountdownWidget ''5 min break'' 5 True))))
   \<and> length (filter (\<lambda>e. \<exists>m. e = On_complete m)
         (calls (fst (ticks 300 (start (CountdownWidget ''5 min break'' 5 True)))))) = 1
   \<and> timer_active (fst (ticks 299 (start (CountdownWidget ''5 min break'' 5 True))))
   \<and> calls (fst (ticks 299 (start (CountdownWidget ''5 min break'' 5 True)))) = []"
proof -
  let ?c = "CountdownWidget ''5 min break'' 5 True"
  have t: "get_active_total_seconds ?c = 300"
    by (simp add: CountdownWidget_def get_active_total_seconds_def)
  have h1: "0 < get_active_total_seconds ?c" and h2: "\<not> timer_active ?c"
    by (simp_all add: CountdownWidget_def get_active_total_seconds_def)
  have c0: "calls ?c = []" by (simp add: CountdownWidget_def)
  note th = countdown_runs_to_completion [OF h1 h2, unfolded t]
  have "(299::nat) < nat 300" by simp
  with th have "timer_active (fst (ticks 299 (start ?c))) \<and> calls (fst (ticks 299 (start ?c))) = calls ?c"
    by blast
  with th h1 h2 c0 show ?thesis by simp
qed

subsection \<open>Countdown: the minutes of the completion event\<close>

text \<open>
  Claim C3, as the code has it. \<^verbatim>\<open>start\<close> and \<^verbatim>\<open>open_editor\<close> both store
  \<^verbatim>\<open>total_minutes = max(1, total // 60)\<close>, and that is what \<^verbatim>\<open>_tick\<close> passes to
  \<^verbatim>\<open>on_complete\<close> and to the notifier: the floor of \<open>total / 60\<close> when the total is at
  least a minute, and \<open>1\<close> (not \<open>0\<close>) when it is under 60 seconds.
\<close>

theorem completion_minutes_at_least_one:
  assumes "0 < get_active_total_seconds c" and "\<not> timer_active c"
  shows "calls (fst (ticks (nat (get_active_total_seconds c)) (start c))) =
           calls c @
           [On_complete (if get_active_total_seconds c < 60 then 1
                         else get_active_total_seconds c div 60), Play_alarm] @
           (if notify_cb c then
              [Notify_cb (label c) (if get_active_total_seconds c < 60 then 1
                                    else get_active_total_seconds c div 60)]
            else [])"
proof -
  have m: "max 1 (get_active_total_seconds c div 60) =
           (if get_active_total_seconds c < 60 then 1 else get_active_total_seconds c div 60)"
    using assms(1) by auto
  show ?thesis
    unfolding ticks_to_end [OF assms] m by simp
qed

theorem completion_minutes_at_least_one_witness:
  "0 < get_active_total_seconds (CountdownWidget ''30 min focus'' 30 False)
   \<and> \<not> timer_active (CountdownWidget ''30 min focus'' 30 False)
   \<and> calls (fst (ticks 1800 (start (CountdownWidget ''30 min focus'' 30 False)))) =
       [On_complete 30, Play_alarm]"
proof -
  let ?c = "CountdownWidget ''30 min focus'' 30 False"
  have t: "get_active_total_seconds ?c = 1800"
    by (simp add: CountdownWidget_def get_active_total_seconds_def)
  have h1: "0 < get_active_total_seconds ?c" and h2: "\<not> timer_active ?c"
    by (simp_all add: CountdownWidget_def get_active_total_seconds_def)
  have c0: "calls ?c = []" "\<not> notify_cb ?c" by (simp_all add: CountdownWidget_def)
  show ?thesis
    using completion_minutes_at_least_one [OF h1 h2, unfolded t] h1 h2 c0 by simp
qed

text \<open>
  Claim C3 as stated (no minimum of one, so \<open>0\<close> minutes under 60 seconds) fails:
  the 30-minute timer edited to 0:00:30 and run for its 30 ticks reports \<open>1\<close> minute,
  while \<open>30 div 60 = 0\<close>.
\<close>

theorem completion_minutes_counterexample:
  "get_active_total_seconds
     (open_editor [Commit ''h'' ''0'', Commit ''m'' ''0'', Commit ''s'' ''30''] Accepted
        (CountdownWidget ''30 min focus'' 30 True)) = 30
   \<and> calls (fst (ticks 30 (start
        (open_editor [Commit ''h'' ''0'', Commit ''m'' ''0'', Commit ''s'' ''30''] Accepted
           (CountdownWidget ''30 min focus'' 30 True))))) =
       [On_complete 1, Play_alarm, Notify_cb ''30 min focus'' 1]
   \<and> (30::int) div 60 = 0"
  by code_simp

subsection \<open>Pause toggle on a stopped timer\<close>

text \<open>
  On a countdown that \<^verbatim>\<open>__init__\<close> has just built, \<^verbatim>\<open>_paused\<close> was never assigned:
  the guard of \<^verbatim>\<open>toggle_pause\<close> raises before anything is changed.
\<close>

lemma toggle_pause_never_started:
  "toggle_pause (CountdownWidget lbl dm n) =
     (CountdownWidget lbl dm n, Some (AttributeError ''_paused''))"
  by (simp add: toggle_pause_def CountdownWidget_def)

text \<open>
  Claim C4, as the code has it. For the countdown, \<^verbatim>\<open>toggle_pause\<close> on a widget whose
  driver is inactive and that is not paused (idle or completed) leaves every attribute
  as it was, so the driver is not started; where \<^verbatim>\<open>_paused\<close> is \<^verbatim>\<open>False\<close> (after
  \<^verbatim>\<open>start\<close>, \<^verbatim>\<open>reset\<close> or an accepted edit) the call returns normally. The
  stopwatch keeps no paused flag: its \<^verbatim>\<open>toggle_pause\<close> on an inactive driver starts the
  driver, with the elapsed count unchanged.
\<close>

theorem toggle_pause_when_stopped:
  assumes "\<not> timer_active c" and "paused c \<noteq> Some True" and "\<not> sw_timer_active s"
  shows "fst (toggle_pause c) = c
       \<and> (paused c = Some False \<longrightarrow> toggle_pause c = (c, None))
       \<and> sw_toggle_pause s = s\<lparr> sw_timer_active := True, sw_pause_btn := Pause_sign \<rparr>
       \<and> elapsed_seconds (sw_toggle_pause s) = elapsed_seconds s"
  using assms by (auto simp add: toggle_pause_def sw_toggle_pause_def split: option.splits)

theorem toggle_pause_when_stopped_witness:
  "\<not> timer_active (reset (CountdownWidget ''5 min break'' 5 True))
   \<and> paused (reset (CountdownWidget ''5 min break'' 5 True)) \<noteq> Some True
   \<and> \<not> sw_timer_active StopwatchWidget
   \<and> toggle_pause (reset (CountdownWidget ''5 min break'' 5 True)) =
       (reset (CountdownWidget ''5 min break'' 5 True), None)
   \<and> sw_timer_active (sw_toggle_pause StopwatchWidget)"
proof -
  let ?c = "reset (CountdownWidget ''5 min break'' 5 True)"
  have h1: "\<not> timer_active ?c" and h2: "paused ?c \<noteq> Some True" and p: "paused ?c = Some False"
    by (simp_all add: reset_def CountdownWidget_def)
  have h3: "\<not> sw_timer_active StopwatchWidget"
    by (simp add: StopwatchWidget_def)
  from toggle_pause_when_stopped [OF h1 h2 h3] p
  have "toggle_pause ?c = (?c, None)"
    and "sw_toggle_pause StopwatchWidget =
         StopwatchWidget\<lparr> sw_timer_active := True, sw_pause_btn := Pause_sign \<rparr>"
    by blast+
  with h1 h2 h3 show ?thesis by simp
qed

text \<open>
  Claim C4 as stated (a no-op for both variants) fails for the stopwatch: toggling a
  stopwatch that was never started starts its driver.
\<close>

theorem toggle_pause_idle_counterexample:
  "\<not> sw_timer_active StopwatchWidget
   \<and> elapsed_seconds StopwatchWidget = 0
   \<and> sw_timer_active (sw_toggle_pause StopwatchWidget)
   \<and> sw_toggle_pause StopwatchWidget \<noteq> StopwatchWidget"
  by (simp add: StopwatchWidget_def sw_toggle_pause_def)

subsection \<open>Configuring the countdown\<close>

lemma of_char_digit_char: "d < 10 \<Longrightarrow> (of_char (digit_char d) :: nat) = 48 + d"
  by (simp add: digit_char_def)

text \<open>
  What \<^verbatim>\<open>_commit_field\<close> reads from a text: surrounding white space is dropped, a text
  that is not all digits counts as \<open>0\<close>, and a superscript digit passes \<^verbatim>\<open>isdigit\<close> and
  makes \<^verbatim>\<open>int\<close> raise.
\<close>

lemma field_value_examples:
  "field_value ''07'' = Inr 7" "field_value '' 45'' = Inr 45" "field_value ''99'' = Inr 99"
  "field_value '''' = Inr 0" "field_value ''+5'' = Inr 0"
  "field_value [char_of (31 :: nat), CHR ''5'', char_of (133 :: nat), char_of (160 :: nat)] = Inr 5"
  "field_value [char_of (178 :: nat)] = Inl (ValueError ''invalid literal for int() with base 10'')"
  by code_simp+

lemma decimal_digit_char: "d < 10 \<Longrightarrow> is_decimal_char (digit_char d)"
  by (simp add: is_decimal_char_def of_char_digit_char)

lemma decimal_not_space: "is_decimal_char ch \<Longrightarrow> \<not> is_space_char ch"
  by (auto simp add: is_decimal_char_def is_space_char_def Let_def)

lemma decimal_zero_pad: "n < 10 ^ k \<Longrightarrow> list_all is_decimal_char (zero_pad k n)"
proof (induction k arbitrary: n)
  case 0
  show ?case by simp
next
  case (Suc k)
  have "n div 10 ^ k < 10"
    using Suc.prems by (simp add: less_mult_imp_div_less mult.commute)
  moreover have "n mod 10 ^ k < 10 ^ k" by simp
  ultimately show ?case using Suc.IH by (simp add: decimal_digit_char)
qed

lemma dropWhile_none: "xs = [] \<or> \<not> P (hd xs) \<Longrightarrow> dropWhile P xs = xs"
  by (cases xs) auto

lemma strip_decimal: "list_all is_decimal_char xs \<Longrightarrow> strip xs = xs"
proof -
  assume a: "list_all is_decimal_char xs"
  have 1: "dropWhile is_space_char xs = xs"
    using a by (intro dropWhile_none) (cases xs; simp add: decimal_not_space)
  have "list_all is_decimal_char (rev xs)" using a by (simp add: list_all_iff)
  then have 2: "dropWhile is_space_char (rev xs) = rev xs"
    by (intro dropWhile_none) (cases "rev xs"; simp add: decimal_not_space)
  show ?thesis by (simp add: strip_def 1 2)
qed

lemma foldl_zero_pad:
  "n < 10 ^ k \<Longrightarrow>
   foldl (\<lambda>acc ch. acc * 10 + (int (of_char ch) - 48)) a (zero_pad k n) = a * 10 ^ k + int n"
proof (induction k arbitrary: n a)
  case 0
  then show ?case by simp
next
  case (Suc k)
  have d: "n div 10 ^ k < 10"
    using Suc.prems by (simp add: less_mult_imp_div_less mult.commute)
  have m: "n mod 10 ^ k < 10 ^ k" by simp
  have n: "int n = int (n div 10 ^ k) * 10 ^ k + int (n mod 10 ^ k)"
    by (metis div_mult_mod_eq of_nat_add of_nat_mult of_nat_numeral of_nat_power)
  have "foldl (\<lambda>acc ch. acc * 10 + (int (of_char ch) - 48)) a (zero_pad (Suc k) n) =
        (a * 10 + int (n div 10 ^ k)) * 10 ^ k + int (n mod 10 ^ k)"
    by (simp add: Suc.IH [OF m] of_char_digit_char [OF d])
  also have "\<dots> = a * 10 ^ Suc k + int n"
    unfolding n by (simp add: algebra_simps)
  finally show ?case .
qed

lemma int_of_digits_zero_pad: "n < 10 ^ k \<Longrightarrow> int_of_digits (zero_pad k n) = int n"
  by (simp add: int_of_digits_def foldl_zero_pad)

lemma length_zero_pad [simp]: "length (zero_pad k n) = k"
  by (induction k arbitrary: n) simp_all

text \<open>
  The decimal text of a number, in \<open>k\<close> digits, is read back as that number: this is
  what a line edit holds after the user typed the number.
\<close>

lemma field_value_zero_pad:
  assumes "0 < k" and "k \<le> 4300" and "n < 10 ^ k"
  shows "field_value (zero_pad k n) = Inr (int n)"
proof -
  have dec: "list_all is_decimal_char (zero_pad k n)" using assms(3) by (rule decimal_zero_pad)
  then have dig: "list_all is_digit_char (zero_pad k n)"
    by (simp add: list_all_iff is_digit_char_def)
  have ne: "zero_pad k n \<noteq> []" using assms(1) by (cases k) simp_all
  have tw: "takeWhile is_decimal_char (zero_pad k n) = zero_pad k n"
    using dec by (simp add: takeWhile_eq_all_conv list_all_iff)
  show ?thesis
    using assms(2,3) dec dig ne
    by (simp add: field_value_def strip_decimal isdigit_def py_int_def tw int_of_digits_zero_pad)
qed

text \<open>
  Three committed fields whose texts \<^verbatim>\<open>int\<close> accepts, followed by Save.
\<close>

lemma open_editor_commits:
  assumes "field_value th = Inr vh" and "field_value tm = Inr vm" and "field_value ts = Inr vs"
  shows "open_editor [Commit ''h'' th, Commit ''m'' tm, Commit ''s'' ts] Accepted c =
     (let h = max 0 (min 23 vh);
          m = max 0 (min 59 vm);
          s = max 0 (min 59 vs);
          total = h * 3600 + m * 60 + s
      in if total = 0 then c
         else c\<lparr> hours := h, minutes := m, seconds := s,
                 total_seconds := total,
                 remaining_seconds := total,
                 total_minutes := Some (max 1 (total div 60)),
                 timer_active := False,
                 paused := Some False,
                 pause_btn := Pause_sign \<rparr>)"
proof -
  define h where "h = max 0 (min 23 vh)"
  define m where "m = max 0 (min 59 vm)"
  define s where "s = max 0 (min 59 vs)"
  have nonneg: "0 \<le> h" "0 \<le> m" "0 \<le> s" by (simp_all add: h_def m_def s_def)
  then have pos: "(0 < h * 3600 + m * 60 + s) = (h * 3600 + m * 60 + s \<noteq> 0)" by auto
  have d: "foldl dialog_step (TimerEditDialog (hours c) (minutes c) (seconds c))
             [Commit ''h'' th, Commit ''m'' tm, Commit ''s'' ts] =
           \<lparr> pending_hours = h, pending_minutes = m, pending_seconds = s \<rparr>"
    by (simp add: commit_field_def assms TimerEditDialog_def Let_def h_def m_def s_def)
  show ?thesis
    unfolding open_editor_def d h_def [symmetric] m_def [symmetric] s_def [symmetric]
    using pos by (simp add: result_time_def Let_def)
qed

text \<open>
  Claim C8. The user submits the numbers \<open>nh\<close>, \<open>nm\<close>, \<open>ns\<close> by typing each into its
  line edit as a decimal text of one or two digits (the edits take at most two
  characters and carry the validator \<^verbatim>\<open>QIntValidator(0, 99)\<close>), commits the three
  fields and accepts the dialog. Each field is clamped on its own (hours to 0..23,
  minutes and seconds to 0..59). When the clamped total is zero the widget is returned
  unchanged (configured duration, remaining time and timer state alike); otherwise the
  configured and the remaining duration both become the clamped total.
\<close>

theorem open_editor_clamps_or_rejects:
  assumes "kh = 1 \<or> kh = 2" and "km = 1 \<or> km = 2" and "ks = 1 \<or> ks = 2"
    and "nh < 10 ^ kh" and "nm < 10 ^ km" and "ns < 10 ^ ks"
  shows "open_editor [Commit ''h'' (zero_pad kh nh), Commit ''m'' (zero_pad km nm),
                      Commit ''s'' (zero_pad ks ns)] Accepted c =
     (let h = max 0 (min 23 (int nh));
          m = max 0 (min 59 (int nm));
          s = max 0 (min 59 (int ns));
          total = h * 3600 + m * 60 + s
      in if total = 0 then c
         else c\<lparr> hours := h, minutes := m, seconds := s,
                 total_seconds := total,
                 remaining_seconds := total,
                 total_minutes := Some (max 1 (total div 60)),
                 timer_active := False,
                 paused := Some False,
                 pause_btn := Pause_sign \<rparr>)"
proof -
  have "field_value (zero_pad kh nh) = Inr (int nh)"
    using assms(1,4) by (intro field_value_zero_pad) auto
  moreover have "field_value (zero_pad km nm) = Inr (int nm)"
    using assms(2,5) by (intro field_value_zero_pad) auto
  moreover have "field_value (zero_pad ks ns) = Inr (int ns)"
    using assms(3,6) by (intro field_value_zero_pad) auto
  ultimately show ?thesis by (rule open_editor_commits)
qed

lemma decimal_texts: "zero_pad 2 25 = ''25''" "zero_pad 1 7 = ''7''" "zero_pad 2 75 = ''75''"
  "zero_pad 2 0 = ''00''" "zero_pad 1 0 = ''0''"
  "digit_char 7 = CHR ''7''" "digit_char 0 = CHR ''0''"
  by code_simp+

theorem open_editor_clamps_or_rejects_witness:
  "open_editor [Commit ''h'' ''25'', Commit ''m'' ''7'', Commit ''s'' ''75''] Accepted
     (CountdownWidget ''30 min focus'' 30 True) =
   (CountdownWidget ''30 min focus'' 30 True)
     \<lparr> hours := 23, minutes := 7, seconds := 59, total_seconds := 83279,
       remaining_seconds := 83279, total_minutes := Some 1387, timer_active := False,
       paused := Some False, pause_btn := Pause_sign \<rparr>
   \<and> open_editor [Commit ''h'' ''00'', Commit ''m'' ''0'', Commit ''s'' ''00''] Accepted
        (CountdownWidget ''30 min focus'' 30 True) =
      CountdownWidget ''30 min focus'' 30 True"
  using open_editor_clamps_or_rejects [of 2 1 2 25 7 75 "CountdownWidget ''30 min focus'' 30 True"]
        open_editor_clamps_or_rejects [of 2 1 2 0 0 0 "CountdownWidget ''30 min focus'' 30 True"]
  by (simp add: decimal_texts Let_def)

subsection \<open>Stopwatch: finishing\<close>

text \<open>
  The exponent \<open>float_exponent\<close> computes brackets its argument between two powers of
  two, so \<open>round_to_double\<close> has a relative error of at most \<open>2^-53\<close> and leaves the
  integers below \<open>2^53\<close> as they are.
\<close>

lemma float_exponent_ge1:
  fixes x :: rat
  assumes "1 \<le> x"
  shows "2 powi (float_exponent x) \<le> x \<and> x < 2 powi (float_exponent x + 1)"
proof -
  define n where "n = \<lfloor>x\<rfloor>"
  have n1: "1 \<le> n" using assms by (simp add: n_def le_floor_iff)
  then have n0: "0 < n" by simp
  have b1: "1 \<le> bitlen n" using n0 by (simp add: bitlen_alt_def)
  from bitlen_bounds [OF n0] have lo: "2 ^ nat (bitlen n - 1) \<le> n" and hi: "n < 2 ^ nat (bitlen n)"
    by simp_all
  have fe: "float_exponent x = bitlen n - 1"
    using assms by (simp add: float_exponent_def n_def)
  have "(2::rat) ^ nat (bitlen n - 1) \<le> of_int n"
    using lo by (metis of_int_le_iff of_int_numeral of_int_power)
  also have "(of_int n :: rat) \<le> x" by (simp add: n_def)
  finally have A: "2 powi (float_exponent x) \<le> x"
    using b1 by (simp add: fe power_int_def)
  have "n + 1 \<le> 2 ^ nat (bitlen n)" using hi by simp
  then have "(of_int (n + 1) :: rat) \<le> 2 ^ nat (bitlen n)"
    by (metis of_int_le_iff of_int_numeral of_int_power)
  moreover have "x < of_int (n + 1)" unfolding n_def by linarith
  ultimately have "x < 2 ^ nat (bitlen n)" by simp
  then have B: "x < 2 powi (float_exponent x + 1)"
    using b1 by (simp add: fe power_int_def)
  from A B show ?thesis ..
qed

lemma float_exponent_lt1:
  fixes x :: rat
  assumes "0 < x" and "x < 1"
  shows "2 powi (float_exponent x) \<le> x \<and> x < 2 powi (float_exponent x + 1)"
proof -
  define y where "y = 1 / x"
  define n where "n = \<lceil>y\<rceil> - 1"
  have y1: "1 < y" using assms by (simp add: y_def)
  have n1: "1 \<le> n" using y1 by (simp add: n_def less_ceiling_iff)
  then have n0: "0 < n" by simp
  define k where "k = bitlen n"
  have k1: "1 \<le> k" using n0 by (simp add: k_def bitlen_alt_def)
  from bitlen_bounds [OF n0] have lo: "2 ^ nat (k - 1) \<le> n" and hi: "n < 2 ^ nat k"
    by (simp_all add: k_def)
  have fe: "float_exponent x = - k"
    using assms by (simp add: float_exponent_def n_def k_def y_def)
  have "y \<le> of_int (n + 1)" by (simp add: n_def)
  also have "(of_int (n + 1) :: rat) \<le> 2 ^ nat k"
    using hi by (metis of_int_le_iff of_int_numeral of_int_power zless_imp_add1_zle)
  finally have "1 / x \<le> 2 ^ nat k" by (simp add: y_def)
  then have "1 \<le> 2 ^ nat k * x" using assms(1) by (simp add: field_simps)
  then have A: "2 powi (float_exponent x) \<le> x"
    using k1 by (simp add: fe power_int_def field_simps)
  have "(2::rat) ^ nat (k - 1) \<le> of_int n"
    using lo by (metis of_int_le_iff of_int_numeral of_int_power)
  also have "(of_int n :: rat) < y" by (simp add: n_def) linarith
  finally have "2 ^ nat (k - 1) < 1 / x" by (simp add: y_def)
  then have lt: "x * 2 ^ nat (k - 1) < 1" using assms(1) by (simp add: field_simps)
  have B: "x < 2 powi (float_exponent x + 1)"
  proof (cases "k = 1")
    case True
    then show ?thesis using assms by (simp add: fe)
  next
    case False
    with k1 have "1 < k" by simp
    then have p: "2 powi (- k + 1) = (1::rat) / 2 ^ nat (k - 1)"
      by (simp add: power_int_def field_simps nat_diff_distrib)
    have "x < 1 / 2 ^ nat (k - 1)" using lt by (simp add: field_simps)
    then show ?thesis unfolding fe p .
  qed
  from A B show ?thesis ..
qed

lemma float_exponent_bounds:
  fixes x :: rat
  assumes "0 < x"
  shows "2 powi (float_exponent x) \<le> x" and "x < 2 powi (float_exponent x + 1)"
  using float_exponent_ge1 [of x] float_exponent_lt1 [of x] assms
  by (cases "1 \<le> x"; simp)+

lemma round_half_even_error: "\<bar>of_int (round_half_even y) - y\<bar> \<le> 1 / 2"
proof -
  have "of_int \<lfloor>y\<rfloor> \<le> y" "y < of_int \<lfloor>y\<rfloor> + 1" by linarith+
  then show ?thesis
    by (auto simp add: round_half_even_def Let_def abs_le_iff)
qed

lemma round_half_even_of_int: "round_half_even (of_int j) = j"
  by (simp add: round_half_even_def)

lemma round_to_double_error:
  fixes x :: rat
  assumes "0 < x"
  shows "\<bar>round_to_double x - x\<bar> \<le> x / 2 ^ 53"
proof -
  define p :: rat where "p = 2 powi (float_exponent x - 52)"
  define m where "m = round_half_even (x / p)"
  have p0: "0 < p" by (simp add: p_def)
  have rd: "round_to_double x = of_int m * p"
    using assms by (simp add: round_to_double_def Let_def p_def m_def)
  have "p = 2 powi (float_exponent x) / 2 ^ 52"
    by (simp add: p_def power_int_diff)
  also have "\<dots> \<le> x / 2 ^ 52"
    using float_exponent_bounds(1) [OF assms] by (simp add: divide_right_mono)
  finally have px: "p \<le> x / 2 ^ 52" .
  have "\<bar>of_int m - x / p\<bar> \<le> 1 / 2"
    unfolding m_def by (rule round_half_even_error)
  then have "\<bar>of_int m - x / p\<bar> * p \<le> 1 / 2 * p"
    using p0 by (simp add: mult_right_mono)
  moreover have "\<bar>of_int m - x / p\<bar> * p = \<bar>of_int m * p - x\<bar>"
    using p0 by (simp add: abs_mult [symmetric] field_simps abs_of_pos flip: abs_mult)
  ultimately have "\<bar>of_int m * p - x\<bar> \<le> p / 2" by simp
  also have "p / 2 \<le> x / 2 ^ 53" using px by simp
  finally show ?thesis by (simp add: rd)
qed

lemma round_to_double_of_int:
  assumes "0 < k" and "k < 2 ^ 53"
  shows "round_to_double (of_int k) = of_int k"
proof -
  define x :: rat where "x = of_int k"
  have x0: "0 < x" using assms by (simp add: x_def)
  define e where "e = float_exponent x - 52"
  have "2 powi (float_exponent x) \<le> x" by (rule float_exponent_bounds(1) [OF x0])
  also have "x < 2 ^ 53" using assms(2) by (simp add: x_def)
  finally have "(2::rat) powi (float_exponent x) < 2 ^ 53" .
  then have "float_exponent x < 53"
    using power_int_le_imp_less_exp [of "2::rat" "float_exponent x" 53] by simp
  then have e0: "e \<le> 0" by (simp add: e_def)
  have pe: "(2::rat) powi e = 1 / 2 ^ nat (- e)"
    using e0 by (cases "e = 0") (simp_all add: power_int_def field_simps)
  have "x / 2 powi e = of_int (k * 2 ^ nat (- e))"
    by (simp add: pe x_def)
  then have "round_half_even (x / 2 powi e) = k * 2 ^ nat (- e)"
    by (simp only: round_half_even_of_int)
  then have "round_to_double x = of_int (k * 2 ^ nat (- e)) * 2 powi e"
    using x0 by (simp add: round_to_double_def Let_def e_def [symmetric])
  also have "\<dots> = x" by (simp add: pe x_def)
  finally show ?thesis by (simp add: x_def)
qed

lemma ceil_truediv_60:
  assumes "0 < n" and "n < 2 ^ 53"
  shows "math_ceil (truediv n 60) = (n + 59) div 60"
proof (cases "n mod 60 = 0")
  case True
  define k where "k = n div 60"
  have nk: "n = k * 60" using True div_mult_mod_eq [of n 60] by (simp add: k_def)
  have k0: "0 < k" and k53: "k < 2 ^ 53" using assms nk by simp_all
  have "(of_int n / of_int 60 :: rat) = of_int k" by (simp add: nk)
  then have "truediv n 60 = of_int k"
    by (simp add: truediv_def round_to_double_of_int [OF k0 k53])
  then show ?thesis by (simp add: math_ceil_def nk)
next
  case False
  define k where "k = n div 60"
  define r where "r = n mod 60"
  have n: "n = k * 60 + r" by (simp add: k_def r_def)
  have "0 \<le> r" "r < 60" by (simp_all add: r_def)
  with False have r: "1 \<le> r" "r \<le> 59" by (simp_all add: r_def)
  define q :: rat where "q = of_int n / 60"
  have q0: "0 < q" using assms by (simp add: q_def)
  have qk: "q = of_int k + of_int r / 60" by (simp add: q_def n add_divide_distrib)
  have lo: "of_int k + 1 / 60 \<le> q" using r(1) by (simp add: qk)
  have hi: "q \<le> of_int k + 1 - 1 / 60" using r(2) by (simp add: qk)
  have "(of_int n :: rat) < 2 ^ 53"
    using assms(2) by (metis of_int_less_iff of_int_numeral of_int_power)
  then have "q / 2 ^ 53 < 1 / 60" by (simp add: q_def)
  with round_to_double_error [OF q0] have err: "\<bar>round_to_double q - q\<bar> < 1 / 60" by simp
  from err have "- (1 / 60) < round_to_double q - q" "round_to_double q - q < 1 / 60"
    by (simp_all only: abs_less_iff) linarith+
  with lo hi have "of_int k < round_to_double q" "round_to_double q \<le> of_int (k + 1)"
    by simp_all
  then have "\<lceil>round_to_double q\<rceil> = k + 1"
    by (simp add: ceiling_eq_iff)
  moreover have "(n + 59) div 60 = k + 1" using r by (simp add: n)
  ultimately show ?thesis by (simp add: math_ceil_def truediv_def q_def)
qed

lemma ceiling_div_60: "\<lceil>(of_int n :: rat) / 60\<rceil> = (n + 59) div 60"
proof -
  define k where "k = (n + 59) div 60"
  define r where "r = (n + 59) mod 60"
  have e: "n + 59 = k * 60 + r" by (simp add: k_def r_def)
  have r: "0 \<le> r" "r < 60" by (simp_all add: r_def)
  have a: "n \<le> k * 60" using e r by linarith
  have "(k - 1) * 60 = k * 60 - 60" by (simp add: algebra_simps)
  then have b: "(k - 1) * 60 < n" using e r by linarith
  have "(of_int n :: rat) \<le> of_int (k * 60)" using a by (simp only: of_int_le_iff)
  then have A: "(of_int n :: rat) / 60 \<le> of_int k" by simp
  have "(of_int ((k - 1) * 60) :: rat) < of_int n" using b by (simp only: of_int_less_iff)
  then have B: "of_int k - 1 < (of_int n :: rat) / 60" by simp
  from A B show ?thesis unfolding k_def [symmetric] by (simp add: ceiling_eq_iff)
qed

lemma stopwatch_minutes_ceil:
  assumes "0 < secs" and "secs < 2 ^ 53"
  shows "stopwatch_minutes secs = (secs + 59) div 60"
proof -
  have "0 \<le> (secs + 59 - 60) div 60" using assms(1) by simp
  then have "1 \<le> (secs + 59) div 60" by simp
  then show ?thesis
    by (simp add: stopwatch_minutes_def ceil_truediv_60 [OF assms])
qed

lemma stopwatch_minutes_fits:
  assumes "0 < secs" and "secs < 2 ^ 53"
  shows "sqlite_integer (stopwatch_minutes secs)"
proof -
  have m: "stopwatch_minutes secs = (secs + 59) div 60" using assms by (rule stopwatch_minutes_ceil)
  have "0 \<le> (secs + 59) div 60" using assms(1) by simp
  moreover have "(secs + 59) div 60 \<le> (secs + 59) div 1"
    using assms(1) by (intro zdiv_mono2) simp_all
  ultimately show ?thesis using assms(2) by (simp add: m sqlite_integer_def)
qed

text \<open>
  Claim C7. \<^verbatim>\<open>finish\<close> stops the driver and resets the elapsed count to \<open>0\<close>; it calls
  \<^verbatim>\<open>on_finish\<close> if and only if the captured count was positive, with that count. The
  callback \<^verbatim>\<open>_log_stopwatch\<close> logs \<^verbatim>\<open>max(1, math.ceil(seconds / 60))\<close> minutes, which
  is the ceiling of \<open>seconds / 60\<close> for every count from \<open>1\<close> up to \<open>2^53\<close>, the range in
  which the float quotient cannot cross an integer: \<open>1\<close> for \<open>1..60\<close> and \<open>3\<close> for \<open>125\<close>.
  For such a count and a subject id that fits an \<^verbatim>\<open>INTEGER\<close> the callback raises nothing
  and the row is written.
\<close>

theorem stopwatch_finish:
  "\<not> sw_timer_active (finish s)
   \<and> elapsed_seconds (finish s) = 0
   \<and> on_finish_calls (finish s) =
       (if 0 < elapsed_seconds s then on_finish_calls s @ [elapsed_seconds s]
        else on_finish_calls s)
   \<and> (truthy (subject_id v) \<and> subject_id v = Some sid \<and> sqlite_integer sid
        \<and> 0 < secs \<and> secs < 2 ^ 53 \<longrightarrow>
        snd (log_stopwatch v secs utcnow) = None
        \<and> map sess_minutes (sessions (store (fst (log_stopwatch v secs utcnow)))) =
            map sess_minutes (sessions (store v)) @ [stopwatch_minutes secs])
   \<and> (0 < secs \<and> secs < 2 ^ 53 \<longrightarrow>
        stopwatch_minutes secs = \<lceil>(of_int secs :: rat) / 60\<rceil>
        \<and> 1 \<le> stopwatch_minutes secs)
   \<and> (1 \<le> secs \<and> secs \<le> 60 \<longrightarrow> stopwatch_minutes secs = 1)
   \<and> stopwatch_minutes 125 = 3"
proof -
  have fin: "\<not> sw_timer_active (finish s)" "elapsed_seconds (finish s) = 0"
    "on_finish_calls (finish s) =
       (if 0 < elapsed_seconds s then on_finish_calls s @ [elapsed_seconds s]
        else on_finish_calls s)"
    by (simp_all add: finish_def Let_def)
  have lg: "truthy (subject_id v) \<and> subject_id v = Some sid \<and> sqlite_integer sid
        \<and> 0 < secs \<and> secs < 2 ^ 53 \<longrightarrow>
        snd (log_stopwatch v secs utcnow) = None
        \<and> map sess_minutes (sessions (store (fst (log_stopwatch v secs utcnow)))) =
            map sess_minutes (sessions (store v)) @ [stopwatch_minutes secs]"
  proof
    assume a: "truthy (subject_id v) \<and> subject_id v = Some sid \<and> sqlite_integer sid
        \<and> 0 < secs \<and> secs < 2 ^ 53"
    then have "sqlite_integer (stopwatch_minutes secs)" by (simp add: stopwatch_minutes_fits)
    with a show "snd (log_stopwatch v secs utcnow) = None
        \<and> map sess_minutes (sessions (store (fst (log_stopwatch v secs utcnow)))) =
            map sess_minutes (sessions (store v)) @ [stopwatch_minutes secs]"
      by (auto simp add: log_stopwatch_def log_session_def truthy_def Let_def)
  qed
  have ce: "0 < secs \<and> secs < 2 ^ 53 \<longrightarrow>
        stopwatch_minutes secs = \<lceil>(of_int secs :: rat) / 60\<rceil>
        \<and> 1 \<le> stopwatch_minutes secs"
  proof
    assume a: "0 < secs \<and> secs < 2 ^ 53"
    then have m: "stopwatch_minutes secs = (secs + 59) div 60"
      by (simp add: stopwatch_minutes_ceil)
    have "\<lceil>(of_int secs :: rat) / 60\<rceil> = (secs + 59) div 60" by (rule ceiling_div_60)
    with m show "stopwatch_minutes secs = \<lceil>(of_int secs :: rat) / 60\<rceil>
        \<and> 1 \<le> stopwatch_minutes secs"
      by (simp add: stopwatch_minutes_def)
  qed
  have one: "1 \<le> secs \<and> secs \<le> 60 \<longrightarrow> stopwatch_minutes secs = 1"
  proof
    assume a: "1 \<le> secs \<and> secs \<le> 60"
    then have "0 < secs" "secs < 2 ^ 53" by simp_all
    then have "stopwatch_minutes secs = (secs + 59) div 60" by (rule stopwatch_minutes_ceil)
    also have "\<dots> = 1"
    proof -
      have "(secs + 59) div 60 = (secs - 1) div 60 + 1" by simp
      moreover have "(secs - 1) div 60 = 0" using a by (simp add: div_pos_pos_trivial)
      ultimately show ?thesis by simp
    qed
    finally show "stopwatch_minutes secs = 1" .
  qed
  have "stopwatch_minutes 125 = (125 + 59) div 60"
    by (rule stopwatch_minutes_ceil) simp_all
  then have three: "stopwatch_minutes 125 = 3" by simp
  show ?thesis
    using fin lg ce one three by (intro conjI) assumption+
qed

theorem stopwatch_finish_witness:
  "truthy (Some 1) \<and> sqlite_integer 1
   \<and> (0::int) < 61 \<and> (61::int) < 2 ^ 53
   \<and> on_finish_calls (finish (StopwatchWidget\<lparr> elapsed_seconds := 61 \<rparr>)) = [61]
   \<and> elapsed_seconds (finish (StopwatchWidget\<lparr> elapsed_seconds := 61 \<rparr>)) = 0
   \<and> stopwatch_minutes 61 = 2
   \<and> snd (log_stopwatch
         \<lparr> store = ensure_schema, subject_id = Some 1, loading_chapters = False,
           chapter_list = [], progress_indicator = 0 \<rparr> 61
         \<lparr> year = 2024, month = 3, day = 5, hour = 10, minute = 0, second = 0,
           microsecond = 0 \<rparr>) = None
   \<and> map sess_minutes (sessions (store (fst (log_stopwatch
         \<lparr> store = ensure_schema, subject_id = Some 1, loading_chapters = False,
           chapter_list = [], progress_indicator = 0 \<rparr> 61
         \<lparr> year = 2024, month = 3, day = 5, hour = 10, minute = 0, second = 0,
           microsecond = 0 \<rparr>)))) = [2]"
proof -
  let ?v = "\<lparr> store = ensure_schema, subject_id = Some 1, loading_chapters = False,
           chapter_list = [], progress_indicator = 0 \<rparr>"
  let ?w = "\<lparr> year = 2024, month = 3, day = 5, hour = 10, minute = 0, second = 0,
           microsecond = 0 \<rparr>"
  let ?s = "StopwatchWidget\<lparr> elapsed_seconds := 61 \<rparr>"
  have t: "truthy (subject_id ?v)" "subject_id ?v = Some 1" "sqlite_integer 1"
    by (simp_all add: truthy_def sqlite_integer_def)
  have r: "(0::int) < 61 \<and> (61::int) < 2 ^ 53" by simp
  have c: "\<lceil>(of_int 61 :: rat) / 60\<rceil> = 2" by (simp add: ceiling_eq_iff)
  note th = stopwatch_finish [where s = ?s and v = ?v and sid = 1 and secs = 61 and utcnow = ?w]
  from th t r c have m: "stopwatch_minutes 61 = 2" by simp
  from th t r have "snd (log_stopwatch ?v 61 ?w) = None
     \<and> map sess_minutes (sessions (store (fst (log_stopwatch ?v 61 ?w)))) =
       map sess_minutes (sessions (store ?v)) @ [stopwatch_minutes 61]" by blast
  then have l: "snd (log_stopwatch ?v 61 ?w) = None"
    "map sess_minutes (sessions (store (fst (log_stopwatch ?v 61 ?w)))) = [2]"
    using m by (simp_all add: ensure_schema_def)
  from th have f: "on_finish_calls (finish ?s) = [61]" "elapsed_seconds (finish ?s) = 0"
    by (simp_all add: StopwatchWidget_def)
  from t(3) m l f show ?thesis by (simp add: truthy_def)
qed

subsection \<open>Chapter progress\<close>

text \<open>
  Claim C9. \<^verbatim>\<open>_update_progress\<close> shows \<open>0\<close> for an empty list and \<open>25\<close> for one checked
  chapter of four.
\<close>

lemma update_progress_examples:
  "progress_indicator (update_progress
      \<lparr> store = ensure_schema, subject_id = Some 1, loading_chapters = False,
        chapter_list = [], progress_indicator = 7 \<rparr>) = 0"
  "progress_indicator (update_progress
      \<lparr> store = ensure_schema, subject_id = Some 1, loading_chapters = False,
        chapter_list = \<lparr> item_text = ''a'', checked = True, user_role = 1 \<rparr> #
                       replicate 3 \<lparr> item_text = ''b'', checked = False, user_role = 2 \<rparr>,
        progress_indicator = 0 \<rparr>) = 25"
  by code_simp+

text \<open>
  Claim C9 at 29 checked chapters of 50. The quotient \<^verbatim>\<open>29 / 50\<close> rounds to a double
  just below \<open>0.58\<close>, its product with \<open>100\<close> rounds to a double just below \<open>58\<close>, and
  \<^verbatim>\<open>int\<close> truncates it: the widget shows \<open>57\<close>, where the floor of \<open>100 * 29 / 50\<close> over
  the integers is \<open>58\<close>.
\<close>

theorem update_progress_29_of_50:
  "progress_indicator (update_progress
      \<lparr> store = ensure_schema, subject_id = Some 1, loading_chapters = False,
        chapter_list = replicate 29 \<lparr> item_text = ''read'', checked = True, user_role = 1 \<rparr> @
                       replicate 21 \<lparr> item_text = ''open'', checked = False, user_role = 2 \<rparr>,
        progress_indicator = 0 \<rparr>) = 57
   \<and> (100 * 29) div 50 = (58::int)"
  by code_simp

subsection \<open>Deleting a subject\<close>

text \<open>
  \<^verbatim>\<open>delete_subject\<close> removes the subject's row and touches neither \<^verbatim>\<open>sessions\<close> nor
  \<^verbatim>\<open>chapters\<close>; the same statement on a connection that enforces foreign keys would
  remove the rows that reference the subject.
\<close>

lemma delete_subject_rows:
  "subjects (delete_subject db sid) = filter (\<lambda>r. subj_id r \<noteq> sid) (subjects db)
   \<and> sessions (delete_subject db sid) = sessions db
   \<and> chapters (delete_subject db sid) = chapters db"
  by (simp add: delete_subject_def sql_delete_subject_def connect_def Let_def)

lemma cascade_when_enforced:
  "sid \<in> subj_id ` set (subjects db) \<Longrightarrow>
   sid \<notin> sess_subject_id ` set (sessions (sql_delete_subject \<lparr> foreign_keys = True \<rparr> sid db))
   \<and> sid \<notin> chap_subject_id ` set (chapters (sql_delete_subject \<lparr> foreign_keys = True \<rparr> sid db))"
  by (auto simp add: sql_delete_subject_def Let_def list_ex_iff)

text \<open>
  Claim C1 at a subject with two sessions and three chapters. After
  \<^verbatim>\<open>delete_subject(1)\<close> the subject is gone and the two session rows and the three
  chapter rows that reference subject \<open>1\<close> are still in the store.
\<close>

theorem delete_subject_leaves_rows:
  "create_subject ensure_schema ''Math'' ''#7ac7ff'' ''2024-03-05 09:00:00'' =
     Inr (\<lparr> subjects = [\<lparr> subj_id = 1, subj_name = ''Math'', subj_color = ''#7ac7ff'',
                            subj_created_at = ''2024-03-05 09:00:00'' \<rparr>],
             sessions = [], chapters = [],
             subjects_seq = 1, sessions_seq = 0, chapters_seq = 0 \<rparr>, 1)
   \<and> (let w = \<lparr> year = 2024, month = 3, day = 5, hour = 10, minute = 0, second = 0,
                  microsecond = 0 \<rparr>;
           db0 = \<lparr> subjects = [\<lparr> subj_id = 1, subj_name = ''Math'', subj_color = ''#7ac7ff'',
                                 subj_created_at = ''2024-03-05 09:00:00'' \<rparr>],
                   sessions = [], chapters = [],
                   subjects_seq = 1, sessions_seq = 0, chapters_seq = 0 \<rparr>;
           logged = (case log_session db0 1 30 (Some w) w of
                       Inl e \<Rightarrow> Inl e
                     | Inr db \<Rightarrow> log_session db 1 45 (Some w) w)
       in case logged of
            Inl e \<Rightarrow> False
          | Inr db \<Rightarrow>
              (let db1 = add_chapter (add_chapter (add_chapter db
                           1 ''Limits'') 1 ''Series'') 1 ''Integrals'';
                   db2 = delete_subject db1 1
               in subjects db2 = []
                \<and> map sess_subject_id (sessions db2) = [1, 1]
                \<and> map chap_subject_id (chapters db2) = [1, 1, 1]))"
  by code_simp

subsection \<open>Reordering chapters\<close>

lemma persist_order_raises:
  "\<not> loading_chapters v \<Longrightarrow> truthy (subject_id v) \<Longrightarrow>
   persist_order v ordered_ids = (v, Some (AttributeError ''reorder_chapters''))"
  by (simp add: persist_order_def DataStore_reorder_chapters_def)

text \<open>
  Claim C2 at a subject whose chapters \<open>1, 2, 3\<close> stand at positions \<open>1, 2, 3\<close>. Dropping
  a chapter so that the list reads \<open>[3, 1, 2]\<close> makes \<^verbatim>\<open>_persist_order\<close> raise
  \<^verbatim>\<open>AttributeError\<close>; no position is rewritten.
\<close>

theorem persist_order_changes_nothing:
  "(let db = add_chapter (add_chapter (add_chapter ensure_schema 1 ''Limits'') 1 ''Series'')
               1 ''Integrals'';
        v = \<lparr> store = db, subject_id = Some 1, loading_chapters = False,
              chapter_list = [], progress_indicator = 0 \<rparr>
    in map (\<lambda>r. (chap_id r, position r)) (list_chapters db 1) = [(1, 1), (2, 2), (3, 3)]
     \<and> persist_order v [3, 1, 2] = (v, Some (AttributeError ''reorder_chapters''))
     \<and> map (\<lambda>r. (chap_id r, position r))
           (list_chapters (store (fst (persist_order v [3, 1, 2]))) 1) = [(1, 1), (2, 2), (3, 3)])"
  by code_simp

subsection \<open>Logging a session\<close>

text \<open>
  Claim C10, for arguments that fit an \<^verbatim>\<open>INTEGER\<close> of SQLite. \<^verbatim>\<open>log_session\<close> appends
  a row whose \<^verbatim>\<open>minutes\<close> is the argument as it was given, whatever its sign, and
  raises nothing; an argument outside the signed 64-bit range makes it raise
  \<^verbatim>\<open>OverflowError\<close>. \<^verbatim>\<open>_log_session\<close> hands the countdown's value on unchanged. What
  keeps stored minutes positive is at the call sites: \<^verbatim>\<open>start\<close> stores
  \<^verbatim>\<open>max(1, total // 60)\<close> as the value the countdown reports, \<^verbatim>\<open>_log_stopwatch\<close> logs
  \<^verbatim>\<open>max(1, ceil(seconds / 60))\<close>, and \<^verbatim>\<open>finish\<close> calls nothing when the elapsed count
  is zero.
\<close>

theorem log_session_stores_minutes_unvalidated:
  "(sqlite_integer sid \<and> sqlite_integer m \<longrightarrow>
      log_session db sid m given utcnow =
        Inr (db\<lparr> sessions := sessions db @
                    [\<lparr> sess_id = sessions_seq db + 1, sess_subject_id = sid, sess_minutes = m,
                       occurred_at = isoformat (case given of Some t \<Rightarrow> t | None \<Rightarrow> utcnow) \<rparr>],
                 sessions_seq := sessions_seq db + 1 \<rparr>))
   \<and> (\<not> sqlite_integer sid \<or> \<not> sqlite_integer m \<longrightarrow>
        log_session db sid m given utcnow =
          Inl (OverflowError ''Python int too large to convert to SQLite INTEGER''))
   \<and> (truthy (subject_id v) \<and> subject_id v = Some sid \<and> sqlite_integer sid
        \<and> sqlite_integer m \<longrightarrow>
        snd (log_session_cb v m utcnow) = None
        \<and> map sess_minutes (sessions (store (fst (log_session_cb v m utcnow)))) =
            map sess_minutes (sessions (store v)) @ [m])
   \<and> (0 < get_active_total_seconds c \<and> \<not> timer_active c \<longrightarrow>
        total_minutes (start c) = Some (max 1 (get_active_total_seconds c div 60)))
   \<and> (truthy (subject_id v) \<and> subject_id v = Some sid \<and> sqlite_integer sid
        \<and> sqlite_integer (max 1 (math_ceil (truediv secs 60))) \<longrightarrow>
        snd (log_stopwatch v secs utcnow) = None
        \<and> map sess_minutes (sessions (store (fst (log_stopwatch v secs utcnow)))) =
            map sess_minutes (sessions (store v)) @ [max 1 (math_ceil (truediv secs 60))])
   \<and> (elapsed_seconds s \<le> 0 \<longrightarrow> on_finish_calls (finish s) = on_finish_calls s)"
proof -
  have 1: "sqlite_integer sid \<and> sqlite_integer m \<longrightarrow>
      log_session db sid m given utcnow =
        Inr (db\<lparr> sessions := sessions db @
                    [\<lparr> sess_id = sessions_seq db + 1, sess_subject_id = sid, sess_minutes = m,
                       occurred_at = isoformat (case given of Some t \<Rightarrow> t | None \<Rightarrow> utcnow) \<rparr>],
                 sessions_seq := sessions_seq db + 1 \<rparr>)"
    by (simp add: log_session_def Let_def)
  have 2: "\<not> sqlite_integer sid \<or> \<not> sqlite_integer m \<longrightarrow>
        log_session db sid m given utcnow =
          Inl (OverflowError ''Python int too large to convert to SQLite INTEGER'')"
    by (simp add: log_session_def Let_def)
  have 3: "truthy (subject_id v) \<and> subject_id v = Some sid \<and> sqlite_integer sid
        \<and> sqlite_integer m \<longrightarrow>
        snd (log_session_cb v m utcnow) = None
        \<and> map sess_minutes (sessions (store (fst (log_session_cb v m utcnow)))) =
            map sess_minutes (sessions (store v)) @ [m]"
    by (simp add: log_session_cb_def log_session_def truthy_def Let_def)
  have 4: "0 < get_active_total_seconds c \<and> \<not> timer_active c \<longrightarrow>
        total_minutes (start c) = Some (max 1 (get_active_total_seconds c div 60))"
    by (simp add: start_def Let_def)
  have 5: "truthy (subject_id v) \<and> subject_id v = Some sid \<and> sqlite_integer sid
        \<and> sqlite_integer (max 1 (math_ceil (truediv secs 60))) \<longrightarrow>
        snd (log_stopwatch v secs utcnow) = None
        \<and> map sess_minutes (sessions (store (fst (log_stopwatch v secs utcnow)))) =
            map sess_minutes (sessions (store v)) @ [max 1 (math_ceil (truediv secs 60))]"
    by (simp add: log_stopwatch_def log_session_def stopwatch_minutes_def truthy_def Let_def)
  have 6: "elapsed_seconds s \<le> 0 \<longrightarrow> on_finish_calls (finish s) = on_finish_calls s"
    by (simp add: finish_def Let_def)
  from 1 2 3 4 5 6 show ?thesis by (intro conjI)
qed

theorem log_session_stores_minutes_unvalidated_witness:
  "sqlite_integer 1 \<and> sqlite_integer (- 5) \<and> sqlite_integer 0
   \<and> log_session ensure_schema 1 (- 5) None
       \<lparr> year = 2024, month = 3, day = 5, hour = 10, minute = 0, second = 0, microsecond = 0 \<rparr> =
     Inr \<lparr> subjects = [],
           sessions = [\<lparr> sess_id = 1, sess_subject_id = 1, sess_minutes = - 5,
                          occurred_at = ''2024-03-05T10:00:00'' \<rparr>],
           chapters = [], subjects_seq = 0, sessions_seq = 1, chapters_seq = 0 \<rparr>
   \<and> log_session ensure_schema 1 0 None
       \<lparr> year = 2024, month = 3, day = 5, hour = 10, minute = 0, second = 0, microsecond = 0 \<rparr> =
     Inr \<lparr> subjects = [],
           sessions = [\<lparr> sess_id = 1, sess_subject_id = 1, sess_minutes = 0,
                          occurred_at = ''2024-03-05T10:00:00'' \<rparr>],
           chapters = [], subjects_seq = 0, sessions_seq = 1, chapters_seq = 0 \<rparr>
   \<and> elapsed_seconds StopwatchWidget \<le> 0
   \<and> on_finish_calls (finish StopwatchWidget) = []"
proof -
  let ?w = "\<lparr> year = 2024, month = 3, day = 5, hour = 10, minute = 0, second = 0, microsecond = 0 \<rparr>"
  have iso: "isoformat ?w = ''2024-03-05T10:00:00''" by code_simp
  have e: "elapsed_seconds StopwatchWidget \<le> 0" and f: "on_finish_calls StopwatchWidget = []"
    by (simp_all add: StopwatchWidget_def)
  have i: "sqlite_integer 1" "sqlite_integer (- 5)" "sqlite_integer 0"
    by (simp_all add: sqlite_integer_def)
  from log_session_stores_minutes_unvalidated [where db = ensure_schema and sid = 1 and m = "- 5" and given = None and utcnow = ?w
      and s = StopwatchWidget]
  have a: "log_session ensure_schema 1 (- 5) None ?w =
     Inr \<lparr> subjects = [],
           sessions = [\<lparr> sess_id = 1, sess_subject_id = 1, sess_minutes = - 5,
                          occurred_at = ''2024-03-05T10:00:00'' \<rparr>],
           chapters = [], subjects_seq = 0, sessions_seq = 1, chapters_seq = 0 \<rparr>"
    and c: "on_finish_calls (finish StopwatchWidget) = []"
    using iso e f i by (simp_all add: ensure_schema_def)
  from log_session_stores_minutes_unvalidated [where db = ensure_schema and sid = 1 and m = 0 and given = None and utcnow = ?w]
  have b: "log_session ensure_schema 1 0 None ?w =
     Inr \<lparr> subjects = [],
           sessions = [\<lparr> sess_id = 1, sess_subject_id = 1, sess_minutes = 0,
                          occurred_at = ''2024-03-05T10:00:00'' \<rparr>],
           chapters = [], subjects_seq = 0, sessions_seq = 1, chapters_seq = 0 \<rparr>"
    using iso i by (simp add: ensure_schema_def)
  from a b c e i show ?thesis by simp
qed

text \<open>
  Claim C10 as stated (for every integer \<open>m\<close>) fails at \<open>m = 2^63\<close>, the first integer
  above the range of an \<^verbatim>\<open>INTEGER\<close>: \<^verbatim>\<open>log_session(1, 2**63)\<close> raises \<^verbatim>\<open>OverflowError\<close>
  and writes no row.
\<close>

theorem log_session_overflow_counterexample:
  "log_session ensure_schema 1 (2 ^ 63) None
       \<lparr> year = 2024, month = 3, day = 5, hour = 10, minute = 0, second = 0, microsecond = 0 \<rparr> =
     Inl (OverflowError ''Python int too large to convert to SQLite INTEGER'')
   \<and> (2 :: int) ^ 63 = 9223372036854775808"
  by (simp add: log_session_def sqlite_integer_def)

subsection \<open>Statistics: the week total and the bars\<close>

text \<open>
  The texts that \<^verbatim>\<open>isoformat\<close> produces for valid naive datetimes are ordered, as
  SQLite compares them, exactly as the datetimes are: every field has a fixed number of
  digits, and the optional microsecond suffix sorts after its absence.
\<close>


lemma digit_char_inj:
  assumes "a < 10" and "b < 10"
  shows "(digit_char a = digit_char b) = (a = b)"
proof
  assume "digit_char a = digit_char b"
  then have "(of_char (digit_char a) :: nat) = of_char (digit_char b)" by simp
  then have "48 + a = 48 + b" using assms by (simp only: of_char_digit_char)
  then show "a = b" by simp
qed simp

lemma text_less_irrefl [simp]: "\<not> text_less s s"
  by (induction s) simp_all

lemma text_less_same_prefix [simp]: "text_less (p @ s) (p @ t) = text_less s t"
  by (induction p) simp_all

lemma text_less_append:
  "length a = length b \<Longrightarrow>
   text_less (a @ s) (b @ t) = (if a = b then text_less s t else text_less a b)"
proof (induction a b rule: list_induct2)
  case Nil
  show ?case by simp
next
  case (Cons x xs y ys)
  then show ?case by simp
qed

lemma zero_pad_less:
  "m < 10 ^ k \<Longrightarrow> n < 10 ^ k \<Longrightarrow> text_less (zero_pad k m) (zero_pad k n) = (m < n)"
proof (induction k arbitrary: m n)
  case 0
  then show ?case by simp
next
  case (Suc k)
  let ?p = "(10::nat) ^ k"
  have dm: "m div ?p < 10" and dn: "n div ?p < 10"
    using Suc.prems by (simp_all add: less_mult_imp_div_less mult.commute)
  have rm: "m mod ?p < ?p" and rn: "n mod ?p < ?p" by simp_all
  have m: "m = m div ?p * ?p + m mod ?p" and n: "n = n div ?p * ?p + n mod ?p"
    by (simp_all only: div_mult_mod_eq)
  show ?case
  proof (cases "m div ?p = n div ?p")
    case True
    then have "(m < n) = (m mod ?p < n mod ?p)"
      by (metis m n nat_add_left_cancel_less)
    with True Suc.IH [OF rm rn] show ?thesis by simp
  next
    case False
    have "(m < n) = (m div ?p < n div ?p)"
    proof
      assume "m < n"
      then have "m div ?p \<le> n div ?p" by (simp add: div_le_mono)
      with False show "m div ?p < n div ?p" by simp
    next
      assume "m div ?p < n div ?p"
      then show "m < n" by (meson div_le_mono leI leD)
    qed
    with False dm dn show ?thesis
      by (simp add: digit_char_inj of_char_digit_char)
  qed
qed

lemma zero_pad_eq:
  "m < 10 ^ k \<Longrightarrow> n < 10 ^ k \<Longrightarrow> (zero_pad k m = zero_pad k n) = (m = n)"
  using zero_pad_less [of m k n] zero_pad_less [of n k m]
  by (metis nat_neq_iff text_less_irrefl)

lemma field_less:
  assumes "m < 10 ^ k" and "n < 10 ^ k"
  shows "text_less (zero_pad k m @ s) (zero_pad k n @ t) = (m < n \<or> (m = n \<and> text_less s t))"
  using assms
  by (simp add: text_less_append zero_pad_eq zero_pad_less)

lemma days_in_month_le_31: "days_in_month y m \<le> 31"
  by (simp add: days_in_month_def)

lemma suffix_less:
  assumes "ua < 1000000" and "ub < 1000000"
  shows "text_less (if ua = 0 then [] else CHR ''.'' # zero_pad 6 ua)
                   (if ub = 0 then [] else CHR ''.'' # zero_pad 6 ub) = (ua < ub)"
proof -
  have "text_less (zero_pad 6 ua) (zero_pad 6 ub) = (ua < ub)"
    using assms by (intro zero_pad_less) simp_all
  then show ?thesis
    by (cases "zero_pad 6 ub") auto
qed

lemma isoformat_less:
  assumes "valid_datetime a" and "valid_datetime b"
  shows "text_less (isoformat a) (isoformat b) = dt_less a b"
proof -
  have da: "day a \<le> 31" and db: "day b \<le> 31"
    using assms days_in_month_le_31 [of "year a" "month a"] days_in_month_le_31 [of "year b" "month b"]
    by (simp_all add: valid_datetime_def)
  have ba: "year a < 10 ^ 4" "month a < 10 ^ 2" "day a < 10 ^ 2" "hour a < 10 ^ 2"
    "minute a < 10 ^ 2" "second a < 10 ^ 2" "microsecond a < 1000000"
    using assms(1) da by (simp_all add: valid_datetime_def)
  have bb: "year b < 10 ^ 4" "month b < 10 ^ 2" "day b < 10 ^ 2" "hour b < 10 ^ 2"
    "minute b < 10 ^ 2" "second b < 10 ^ 2" "microsecond b < 1000000"
    using assms(2) db by (simp_all add: valid_datetime_def)
  note sl = suffix_less [OF ba(7) bb(7)]
  have "text_less (isoformat a) (isoformat b) =
     (year a < year b \<or> (year a = year b \<and>
       (month a < month b \<or> (month a = month b \<and>
         (day a < day b \<or> (day a = day b \<and>
           (hour a < hour b \<or> (hour a = hour b \<and>
             (minute a < minute b \<or> (minute a = minute b \<and>
               (second a < second b \<or> (second a = second b \<and>
                  microsecond a < microsecond b))))))))))))"
    unfolding isoformat_def
    by (simp only: field_less [OF ba(1) bb(1)] field_less [OF ba(2) bb(2)]
          field_less [OF ba(3) bb(3)] field_less [OF ba(4) bb(4)]
          field_less [OF ba(5) bb(5)] field_less [OF ba(6) bb(6)] sl
          append_Cons append_Nil text_less.simps if_True refl)
  also have "\<dots> = dt_less a b"
    by (auto simp add: dt_less_def dt_key_def)
  finally show ?thesis .
qed

lemma isoformat_ge:
  assumes "valid_datetime a" and "valid_datetime b"
  shows "text_ge (isoformat a) (isoformat b) = dt_le b a"
proof -
  have "dt_le b a = (\<not> dt_less a b)"
    by (auto simp add: dt_le_def dt_less_def)
  then show ?thesis by (simp add: text_ge_def isoformat_less [OF assms])
qed

text \<open>
  The calendar: the day count \<^verbatim>\<open>toordinal\<close> moves by one with each calendar day, so
  adding or subtracting \<open>n\<close> days succeeds inside the years 1..9999 and moves the day
  count by \<open>n\<close>.
\<close>


lemma month_cases:
  assumes "1 \<le> m" and "m \<le> 12"
  shows "m = 1 \<or> m = 2 \<or> m = 3 \<or> m = 4 \<or> m = 5 \<or> m = 6 \<or>
         m = 7 \<or> m = 8 \<or> m = 9 \<or> m = 10 \<or> m = 11 \<or> m = (12::nat)"
  using assms by arith

lemma days_before_next_month:
  assumes "1 \<le> m" and "m < 12"
  shows "days_before_month y (m + 1) = days_before_month y m + int (days_in_month y m)"
proof -
  from assms have "m = 1 \<or> m = 2 \<or> m = 3 \<or> m = 4 \<or> m = 5 \<or> m = 6 \<or>
         m = 7 \<or> m = 8 \<or> m = 9 \<or> m = 10 \<or> m = 11 \<or> m = 12"
    by (intro month_cases) simp_all
  with assms(2) show ?thesis
    by (elim disjE) (simp_all add: days_before_month_def days_in_month_def)
qed

lemma days_before_january: "days_before_month y 1 = 0"
  by (simp add: days_before_month_def)

lemma days_through_december:
  "days_before_month y 12 + 31 = (if is_leap y then 366 else 365)"
  by (simp add: days_before_month_def)

lemma days_in_month_ge_28: "28 \<le> days_in_month y m"
  by (simp add: days_in_month_def)

lemma day_of_year_bounds:
  assumes "1 \<le> m" and "m \<le> 12" and "1 \<le> d" and "d \<le> days_in_month y m"
  shows "1 \<le> days_before_month y m + int d"
    and "days_before_month y m + int d \<le> (if is_leap y then 366 else 365)"
proof -
  from assms(1,2) have c: "m = 1 \<or> m = 2 \<or> m = 3 \<or> m = 4 \<or> m = 5 \<or> m = 6 \<or>
         m = 7 \<or> m = 8 \<or> m = 9 \<or> m = 10 \<or> m = 11 \<or> m = 12"
    by (rule month_cases)
  from c assms(3) show "1 \<le> days_before_month y m + int d"
    by (elim disjE) (simp_all add: days_before_month_def)
  from c assms(4) show "days_before_month y m + int d \<le> (if is_leap y then 366 else 365)"
    by (elim disjE) (simp_all add: days_before_month_def days_in_month_def split: if_splits)
qed


lemma div_step:
  fixes z k :: int
  assumes "0 \<le> z" and "1 < k"
  shows "(z + 1) div k = z div k + (if (z + 1) mod k = 0 then 1 else 0)"
proof -
  define q where "q = z div k"
  define r where "r = z mod k"
  have z: "z = q * k + r" by (simp add: q_def r_def)
  have r: "0 \<le> r" "r < k" using assms(2) by (simp_all add: r_def)
  show ?thesis
  proof (cases "r + 1 = k")
    case True
    then have "z + 1 = (q + 1) * k" using z by (simp add: algebra_simps)
    then have "(z + 1) div k = q + 1" "(z + 1) mod k = 0" using assms(2) by simp_all
    then show ?thesis by (simp add: q_def)
  next
    case False
    with r have lt: "r + 1 < k" by simp
    have e: "z + 1 = q * k + (r + 1)" using z by simp
    have "(z + 1) div k = q" 
      unfolding e using lt r by (simp add: div_pos_pos_trivial)
    moreover have "(z + 1) mod k = r + 1"
      unfolding e using lt r by (simp add: mod_pos_pos_trivial)
    ultimately show ?thesis using r by (simp add: q_def)
  qed
qed


lemma mod_4_of_100: "(w::int) mod 100 = 0 \<Longrightarrow> w mod 4 = 0"
proof -
  assume "w mod 100 = 0"
  then have "100 dvd w" by (simp add: mod_eq_0_iff_dvd)
  moreover have "(4::int) dvd 100" by simp
  ultimately have "4 dvd w" by (rule dvd_trans [rotated])
  then show ?thesis by (simp add: mod_eq_0_iff_dvd)
qed

lemma mod_100_of_400: "(w::int) mod 400 = 0 \<Longrightarrow> w mod 100 = 0"
proof -
  assume "w mod 400 = 0"
  then have "400 dvd w" by (simp add: mod_eq_0_iff_dvd)
  moreover have "(100::int) dvd 400" by simp
  ultimately have "100 dvd w" by (rule dvd_trans [rotated])
  then show ?thesis by (simp add: mod_eq_0_iff_dvd)
qed

lemma days_before_year_Suc:
  assumes "1 \<le> y"
  shows "days_before_year (Suc y) = days_before_year y + (if is_leap y then 366 else 365)"
proof -
  define z where "z = int y - 1"
  have z0: "0 \<le> z" using assms by (simp add: z_def)
  have zy: "int y = z + 1" by (simp add: z_def)
  have l: "is_leap y = ((z + 1) mod 4 = 0 \<and> ((z + 1) mod 100 \<noteq> 0 \<or> (z + 1) mod 400 = 0))"
  proof -
    have m: "(y mod k = 0) = (int y mod int k = 0)" for k
    proof -
      have "int (y mod k) = int y mod int k" by (simp add: zmod_int)
      then show ?thesis by (metis of_nat_eq_0_iff)
    qed
    show ?thesis
      unfolding is_leap_def zy [symmetric] using m [of 4] m [of 100] m [of 400] by simp
  qed
  have a: "days_before_year (Suc y) =
        (z + 1) * 365 + (z + 1) div 4 - (z + 1) div 100 + (z + 1) div 400"
    by (simp add: days_before_year_def z_def)
  have b: "days_before_year y = z * 365 + z div 4 - z div 100 + z div 400"
    by (simp add: days_before_year_def z_def)
  note d4 = div_step [OF z0, of 4, simplified]
  note d100 = div_step [OF z0, of 100, simplified]
  note d400 = div_step [OF z0, of 400, simplified]
  show ?thesis
  proof (cases "(z + 1) mod 4 = 0")
    case False
    then have n100: "(z + 1) mod 100 \<noteq> 0"
      using mod_4_of_100 [of "z + 1"] by auto
    then have "(z + 1) mod 400 \<noteq> 0"
      using mod_100_of_400 [of "z + 1"] by auto
    note this n100
    with False show ?thesis unfolding a b l d4 d100 d400 by (simp add: algebra_simps)
  next
    case t4: True
    show ?thesis
    proof (cases "(z + 1) mod 100 = 0")
      case False
      then have "(z + 1) mod 400 \<noteq> 0" using mod_100_of_400 [of "z + 1"] by auto
      with False t4 show ?thesis unfolding a b l d4 d100 d400 by (simp add: algebra_simps)
    next
      case t100: True
      show ?thesis
        using t4 t100 unfolding a b l d4 d100 d400 by (simp add: algebra_simps)
    qed
  qed
qed


lemma days_before_year_mono:
  assumes "1 \<le> a" and "a \<le> b"
  shows "days_before_year a \<le> days_before_year b"
  using assms(2,1)
proof (induction b rule: dec_induct)
  case base
  show ?case by simp
next
  case (step n)
  then have "1 \<le> n" by simp
  from days_before_year_Suc [OF this] step show ?case by (simp split: if_splits)
qed

lemma toordinal_lower:
  assumes "valid_datetime d" and "2 \<le> year d"
  shows "366 \<le> toordinal d"
proof -
  have "days_before_year 2 \<le> days_before_year (year d)"
    using assms(2) by (intro days_before_year_mono) simp_all
  moreover have "days_before_year 2 = 365" by (simp add: days_before_year_def)
  moreover have "1 \<le> days_before_month (year d) (month d) + int (day d)"
    using assms(1) by (intro day_of_year_bounds) (simp_all add: valid_datetime_def)
  ultimately show ?thesis by (simp add: toordinal_def)
qed

lemma toordinal_upper:
  assumes "valid_datetime d" and "year d \<le> 9998"
  shows "toordinal d \<le> 3651694"
proof -
  have y1: "1 \<le> year d" using assms(1) by (simp add: valid_datetime_def)
  have "days_before_month (year d) (month d) + int (day d) \<le> (if is_leap (year d) then 366 else 365)"
    using assms(1) by (intro day_of_year_bounds) (simp_all add: valid_datetime_def)
  then have "toordinal d \<le> days_before_year (Suc (year d))"
    by (simp add: toordinal_def days_before_year_Suc [OF y1] split: if_splits)
  also have "\<dots> \<le> days_before_year 9999"
    using assms(2) by (intro days_before_year_mono) simp_all
  also have "\<dots> = 3651694" by (simp add: days_before_year_def)
  finally show ?thesis .
qed

lemma days_before_first_month: "days_before_month y (Suc 0) = 0"
  by (simp add: days_before_month_def)

lemma next_day_ok:
  assumes v: "valid_datetime d" and lt: "toordinal d < 3652059"
  shows "\<exists>d'. next_day d = Inr d' \<and> valid_datetime d' \<and> toordinal d' = toordinal d + 1
              \<and> same_time d d'"
proof (cases "day d < days_in_month (year d) (month d)")
  case True
  then have "next_day d = Inr (d\<lparr> day := day d + 1 \<rparr>)" by (simp add: next_day_def)
  moreover have "valid_datetime (d\<lparr> day := day d + 1 \<rparr>)"
    using v True by (simp add: valid_datetime_def)
  moreover have "toordinal (d\<lparr> day := day d + 1 \<rparr>) = toordinal d + 1"
    by (simp add: toordinal_def)
  ultimately show ?thesis by (simp add: same_time_def)
next
  case False
  with v have last: "day d = days_in_month (year d) (month d)"
    by (simp add: valid_datetime_def)
  show ?thesis
  proof (cases "month d < 12")
    case True
    let ?d' = "d\<lparr> month := month d + 1, day := 1 \<rparr>"
    have "next_day d = Inr ?d'" using False True by (simp add: next_day_def)
    moreover have "valid_datetime ?d'"
      using v True days_in_month_ge_28 [of "year d" "month d + 1"]
      by (simp add: valid_datetime_def)
    moreover have "toordinal ?d' = toordinal d + 1"
      using v True last days_before_next_month [of "month d" "year d"]
      by (simp add: toordinal_def valid_datetime_def)
    ultimately show ?thesis by (simp add: same_time_def)
  next
    case m12: False
    with v have m: "month d = 12" by (simp add: valid_datetime_def)
    with last have dd: "day d = 31" by (simp add: days_in_month_def)
    have y1: "1 \<le> year d" using v by (simp add: valid_datetime_def)
    have "year d \<noteq> 9999"
    proof
      assume "year d = 9999"
      with m dd have "toordinal d = 3652059"
        by (simp add: toordinal_def days_before_year_def days_before_month_def is_leap_def)
      with lt show False by simp
    qed
    with v have y: "year d < 9999" by (simp add: valid_datetime_def)
    let ?d' = "d\<lparr> year := year d + 1, month := 1, day := 1 \<rparr>"
    have "next_day d = Inr ?d'" using False m12 y by (simp add: next_day_def)
    moreover have "valid_datetime ?d'"
      using v y by (simp add: valid_datetime_def days_in_month_def)
    moreover have "toordinal ?d' = toordinal d + 1"
      using days_before_year_Suc [OF y1] days_through_december [of "year d"] m dd
      by (simp add: toordinal_def days_before_first_month split: if_splits)
    ultimately show ?thesis by (simp add: same_time_def)
  qed
qed

lemma prev_day_ok:
  assumes v: "valid_datetime d" and gt: "1 < toordinal d"
  shows "\<exists>d'. prev_day d = Inr d' \<and> valid_datetime d' \<and> toordinal d' = toordinal d - 1
              \<and> same_time d d'"
proof (cases "1 < day d")
  case True
  then have "prev_day d = Inr (d\<lparr> day := day d - 1 \<rparr>)" by (simp add: prev_day_def)
  moreover have "valid_datetime (d\<lparr> day := day d - 1 \<rparr>)"
    using v True by (auto simp add: valid_datetime_def)
  moreover have "toordinal (d\<lparr> day := day d - 1 \<rparr>) = toordinal d - 1"
    using True by (simp add: toordinal_def)
  ultimately show ?thesis by (simp add: same_time_def)
next
  case False
  with v have first: "day d = 1" by (simp add: valid_datetime_def)
  show ?thesis
  proof (cases "1 < month d")
    case True
    let ?d' = "d\<lparr> month := month d - 1, day := days_in_month (year d) (month d - 1) \<rparr>"
    have "prev_day d = Inr ?d'" using False True by (simp add: prev_day_def)
    moreover have "valid_datetime ?d'"
      using v True days_in_month_ge_28 [of "year d" "month d - 1"]
      by (auto simp add: valid_datetime_def)
    moreover have "toordinal ?d' = toordinal d - 1"
      using v True first days_before_next_month [of "month d - 1" "year d"]
      by (auto simp add: toordinal_def valid_datetime_def)
    ultimately show ?thesis by (simp add: same_time_def)
  next
    case m1: False
    with v have m: "month d = 1" by (simp add: valid_datetime_def)
    have "year d \<noteq> 1"
    proof
      assume "year d = 1"
      with m first have "toordinal d = 1"
        by (simp add: toordinal_def days_before_year_def days_before_month_def)
      with gt show False by simp
    qed
    with v have y: "1 < year d" by (simp add: valid_datetime_def)
    then have y1: "1 \<le> year d - 1" and sy: "Suc (year d - 1) = year d" by simp_all
    let ?d' = "d\<lparr> year := year d - 1, month := 12, day := 31 \<rparr>"
    have "prev_day d = Inr ?d'" using False m1 y by (simp add: prev_day_def)
    moreover have "valid_datetime ?d'"
      using v y by (auto simp add: valid_datetime_def days_in_month_def)
    moreover have "toordinal ?d' = toordinal d - 1"
      using days_before_year_Suc [OF y1] days_through_december [of "year d - 1"] m first
      unfolding sy
      by (simp add: toordinal_def days_before_first_month split: if_splits)
    ultimately show ?thesis by (simp add: same_time_def)
  qed
qed

lemma same_time_trans: "same_time a b \<Longrightarrow> same_time b c \<Longrightarrow> same_time a c"
  by (simp add: same_time_def)

lemma plus_days_ok:
  assumes "valid_datetime d" and "toordinal d + int n \<le> 3652059"
  shows "\<exists>d'. plus_days n d = Inr d' \<and> valid_datetime d' \<and> toordinal d' = toordinal d + int n
              \<and> same_time d d'"
  using assms
proof (induction n arbitrary: d)
  case 0
  then show ?case by (simp add: same_time_def)
next
  case (Suc n)
  then have "toordinal d < 3652059" by simp
  from next_day_ok [OF Suc.prems(1) this] obtain d1 where
    d1: "next_day d = Inr d1" "valid_datetime d1" "toordinal d1 = toordinal d + 1" "same_time d d1"
    by blast
  have "toordinal d1 + int n \<le> 3652059" using Suc.prems(2) d1(3) by simp
  from Suc.IH [OF d1(2) this] obtain d' where
    d': "plus_days n d1 = Inr d'" "valid_datetime d'" "toordinal d' = toordinal d1 + int n"
      "same_time d1 d'"
    by blast
  have "plus_days (Suc n) d = Inr d'" using d1(1) d'(1) by simp
  moreover have "toordinal d' = toordinal d + int (Suc n)" using d1(3) d'(3) by simp
  moreover have "same_time d d'" using d1(4) d'(4) by (rule same_time_trans)
  ultimately show ?case using d'(2) by blast
qed

lemma minus_days_ok:
  assumes "valid_datetime d" and "1 \<le> toordinal d - int n"
  shows "\<exists>d'. minus_days n d = Inr d' \<and> valid_datetime d' \<and> toordinal d' = toordinal d - int n
              \<and> same_time d d'"
  using assms
proof (induction n arbitrary: d)
  case 0
  then show ?case by (simp add: same_time_def)
next
  case (Suc n)
  then have "1 < toordinal d" by simp
  from prev_day_ok [OF Suc.prems(1) this] obtain d1 where
    d1: "prev_day d = Inr d1" "valid_datetime d1" "toordinal d1 = toordinal d - 1" "same_time d d1"
    by blast
  have "1 \<le> toordinal d1 - int n" using Suc.prems(2) d1(3) by simp
  from Suc.IH [OF d1(2) this] obtain d' where
    d': "minus_days n d1 = Inr d'" "valid_datetime d'" "toordinal d' = toordinal d1 - int n"
      "same_time d1 d'"
    by blast
  have "minus_days (Suc n) d = Inr d'" using d1(1) d'(1) by simp
  moreover have "toordinal d' = toordinal d - int (Suc n)" using d1(3) d'(3) by simp
  moreover have "same_time d d'" using d1(4) d'(4) by (rule same_time_trans)
  ultimately show ?case using d'(2) by blast
qed

lemma replace_day_1:
  assumes "valid_datetime d"
  shows "valid_datetime (d\<lparr> day := 1 \<rparr>)"
    and "toordinal (d\<lparr> day := 1 \<rparr>) = toordinal d - int (day d) + 1"
    and "toordinal d - 30 \<le> toordinal (d\<lparr> day := 1 \<rparr>)"
    and "toordinal (d\<lparr> day := 1 \<rparr>) \<le> toordinal d"
proof -
  have "day d \<le> 31" "1 \<le> day d"
    using assms days_in_month_le_31 [of "year d" "month d"] by (simp_all add: valid_datetime_def)
  then show "toordinal d - 30 \<le> toordinal (d\<lparr> day := 1 \<rparr>)"
    "toordinal (d\<lparr> day := 1 \<rparr>) \<le> toordinal d"
    by (simp_all add: toordinal_def)
  show "valid_datetime (d\<lparr> day := 1 \<rparr>)"
    using assms days_in_month_ge_28 [of "year d" "month d"] by (simp add: valid_datetime_def)
  show "toordinal (d\<lparr> day := 1 \<rparr>) = toordinal d - int (day d) + 1"
    by (simp add: toordinal_def)
qed

text \<open>
  The two queries select by text comparison; on rows written by \<^verbatim>\<open>log_session\<close>
  that is selection by time.
\<close>


lemma filter_sum_by_time:
  assumes "length rows = length whens"
    and "\<forall>(r, w) \<in> set (zip rows whens). P r = Q w"
  shows "sum_list (map sess_minutes (filter P rows)) =
         sum_list (map (\<lambda>(r, w). if Q w then sess_minutes r else 0) (zip rows whens))"
  using assms by (induction rows whens rule: list_induct2) simp_all

lemma logged_rows:
  assumes "map occurred_at rows = map isoformat whens"
  shows "length rows = length whens"
    and "\<forall>(r, w) \<in> set (zip rows whens). occurred_at r = isoformat w"
proof -
  show l: "length rows = length whens" using assms by (rule map_eq_imp_length_eq)
  from l assms show "\<forall>(r, w) \<in> set (zip rows whens). occurred_at r = isoformat w"
    by (induction rows whens rule: list_induct2) simp_all
qed

text \<open>
  When the absolute values of the summands stay below \<open>2^63\<close> in total, no partial sum
  leaves the range of an \<^verbatim>\<open>INTEGER\<close> and \<^verbatim>\<open>SUM\<close> is the sum; selecting rows keeps the
  bound.
\<close>

lemma sql_sum_from_ok:
  "\<bar>acc\<bar> + sum_list (map abs xs) < 2 ^ 63 \<Longrightarrow> sql_sum_from acc xs = Inr (acc + sum_list xs)"
proof (induction xs arbitrary: acc)
  case Nil
  show ?case by simp
next
  case (Cons x xs)
  have nn: "0 \<le> sum_list (map abs xs)" by (rule sum_list_nonneg) auto
  have tri: "\<bar>acc + x\<bar> \<le> \<bar>acc\<bar> + \<bar>x\<bar>" by (rule abs_triangle_ineq)
  have b: "\<bar>acc\<bar> + \<bar>x\<bar> + sum_list (map abs xs) < 2 ^ 63" using Cons.prems by simp
  have "\<bar>acc + x\<bar> < 2 ^ 63" using tri b nn by linarith
  then have fits: "sqlite_integer (acc + x)" by (simp add: sqlite_integer_def abs_less_iff)
  have "\<bar>acc + x\<bar> + sum_list (map abs xs) < 2 ^ 63" using tri b by linarith
  then have "sql_sum_from (acc + x) xs = Inr (acc + x + sum_list xs)" by (rule Cons.IH)
  with fits show ?case by (simp add: add.assoc)
qed

lemma abs_sum_filter:
  "sum_list (map (\<lambda>r. \<bar>sess_minutes r\<bar>) (filter P rows)) \<le>
   sum_list (map (\<lambda>r. \<bar>sess_minutes r\<bar>) rows)"
  by (induction rows) auto

lemma coalesce_sum_filter:
  assumes "sum_list (map (\<lambda>r. \<bar>sess_minutes r\<bar>) rows) < 2 ^ 63"
  shows "coalesce_sum (map sess_minutes (filter P rows)) =
         Inr (sum_list (map sess_minutes (filter P rows)))"
proof -
  have "sum_list (map abs (map sess_minutes (filter P rows))) =
        sum_list (map (\<lambda>r. \<bar>sess_minutes r\<bar>) (filter P rows))"
    by (simp add: comp_def)
  also have "\<dots> \<le> sum_list (map (\<lambda>r. \<bar>sess_minutes r\<bar>) rows)" by (rule abs_sum_filter)
  finally have "\<bar>0\<bar> + sum_list (map abs (map sess_minutes (filter P rows))) < 2 ^ 63"
    using assms by simp
  from sql_sum_from_ok [OF this] show ?thesis by (simp add: coalesce_sum_def)
qed

lemma total_since_ok:
  assumes "sum_list (map (\<lambda>r. \<bar>sess_minutes r\<bar>) (sessions db)) < 2 ^ 63"
  shows "\<exists>t. total_since db ts = Inr t"
  unfolding total_since_def coalesce_sum_filter [OF assms] by simp

lemma total_between_ok:
  assumes "sum_list (map (\<lambda>r. \<bar>sess_minutes r\<bar>) (sessions db)) < 2 ^ 63"
  shows "\<exists>t. total_between db a b = Inr t"
  unfolding total_between_def coalesce_sum_filter [OF assms] by simp

lemma total_since_by_time:
  assumes rows: "map occurred_at (sessions db) = map isoformat whens"
    and valid: "\<forall>w \<in> set whens. valid_datetime w"
    and fits: "sum_list (map (\<lambda>r. \<bar>sess_minutes r\<bar>) (sessions db)) < 2 ^ 63"
    and ts: "valid_datetime ts"
  shows "total_since db ts =
         Inr (sum_list (map (\<lambda>(r, w). if dt_le ts w then sess_minutes r else 0)
                            (zip (sessions db) whens)))"
proof -
  note lr = logged_rows [OF rows]
  have "\<forall>(r, w) \<in> set (zip (sessions db) whens).
          text_ge (occurred_at r) (isoformat ts) = dt_le ts w"
  proof (clarify)
    fix r w assume m: "(r, w) \<in> set (zip (sessions db) whens)"
    then have "w \<in> set whens" by (rule set_zip_rightD)
    with valid have "valid_datetime w" by simp
    moreover from m lr(2) have "occurred_at r = isoformat w" by auto
    ultimately show "text_ge (occurred_at r) (isoformat ts) = dt_le ts w"
      using isoformat_ge [of w ts] ts by simp
  qed
  from filter_sum_by_time [OF lr(1) this] show ?thesis
    unfolding total_since_def coalesce_sum_filter [OF fits] by simp
qed

lemma total_between_by_time:
  assumes rows: "map occurred_at (sessions db) = map isoformat whens"
    and valid: "\<forall>w \<in> set whens. valid_datetime w"
    and fits: "sum_list (map (\<lambda>r. \<bar>sess_minutes r\<bar>) (sessions db)) < 2 ^ 63"
    and a: "valid_datetime a" and b: "valid_datetime b"
  shows "total_between db a b =
         Inr (sum_list (map (\<lambda>(r, w). if dt_le a w \<and> dt_less w b then sess_minutes r else 0)
                            (zip (sessions db) whens)))"
proof -
  note lr = logged_rows [OF rows]
  have "\<forall>(r, w) \<in> set (zip (sessions db) whens).
          (text_ge (occurred_at r) (isoformat a) \<and> text_less (occurred_at r) (isoformat b)) =
          (dt_le a w \<and> dt_less w b)"
  proof (clarify)
    fix r w assume m: "(r, w) \<in> set (zip (sessions db) whens)"
    then have "w \<in> set whens" by (rule set_zip_rightD)
    with valid have "valid_datetime w" by simp
    moreover from m lr(2) have "occurred_at r = isoformat w" by auto
    ultimately show "(text_ge (occurred_at r) (isoformat a) \<and> text_less (occurred_at r) (isoformat b)) =
          (dt_le a w \<and> dt_less w b)"
      using isoformat_ge [of w a] isoformat_less [of w b] a b by simp
  qed
  from filter_sum_by_time [OF lr(1) this] show ?thesis
    unfolding total_between_def coalesce_sum_filter [OF fits] by simp
qed

lemma month_cards_loop_ok:
  assumes fits: "sum_list (map (\<lambda>r. \<bar>sess_minutes r\<bar>) (sessions db)) < 2 ^ 63"
    and "valid_datetime m" and "31 * int n < toordinal m" and "toordinal m + 32 \<le> 3652059"
  shows "\<exists>cards. month_cards_loop db n m = Inr cards"
  using assms(2-)
proof (induction n arbitrary: m)
  case 0
  show ?case by simp
next
  case (Suc n)
  from plus_days_ok [OF Suc.prems(1), of 32] Suc.prems(3)
  obtain later where later: "plus_days 32 m = Inr later" by auto
  have "1 \<le> toordinal m - int 1" using Suc.prems(2) by simp
  from minus_days_ok [OF Suc.prems(1) this]
  obtain before where before: "minus_days 1 m = Inr before" "valid_datetime before"
    "toordinal before = toordinal m - 1" by auto
  note r = replace_day_1 [OF before(2)]
  have "31 * int n < toordinal (before\<lparr> day := 1 \<rparr>)"
    using r(3) before(3) Suc.prems(2) by simp
  moreover have "toordinal (before\<lparr> day := 1 \<rparr>) + 32 \<le> 3652059"
    using r(4) before(3) Suc.prems(3) by simp
  ultimately obtain rest where "month_cards_loop db n (before\<lparr> day := 1 \<rparr>) = Inr rest"
    using Suc.IH [OF r(1)] by blast
  moreover from total_between_ok [OF fits] obtain t where
    "total_between db m (later\<lparr> day := 1 \<rparr>) = Inr t" by blast
  ultimately show ?case
    using later before(1) by (simp del: plus_days.simps minus_days.simps)
qed

lemma at_midnight_same_time: "at_midnight a \<Longrightarrow> same_time a b \<Longrightarrow> at_midnight b"
  by (simp add: at_midnight_def same_time_def)

lemma bars_entry:
  assumes rows: "map occurred_at (sessions db) = map isoformat whens"
    and valid: "\<forall>w \<in> set whens. valid_datetime w"
    and fits: "sum_list (map (\<lambda>r. \<bar>sess_minutes r\<bar>) (sessions db)) < 2 ^ 63"
    and s: "valid_datetime sunday" "at_midnight sunday"
    and bound: "toordinal sunday + int i + 1 \<le> 3652059"
  shows "\<exists>d e. plus_days i sunday = Inr d \<and> plus_days 1 d = Inr e
     \<and> valid_datetime d \<and> at_midnight d \<and> toordinal d = toordinal sunday + int i
     \<and> valid_datetime e \<and> at_midnight e \<and> toordinal e = toordinal d + 1
     \<and> total_between db d e =
         Inr (sum_list (map (\<lambda>(r, w). if dt_le d w \<and> dt_less w e then sess_minutes r else 0)
                            (zip (sessions db) whens)))"
proof -
  have "toordinal sunday + int i \<le> 3652059" using bound by simp
  from plus_days_ok [OF s(1) this] obtain d where
    d: "plus_days i sunday = Inr d" "valid_datetime d" "toordinal d = toordinal sunday + int i"
       "same_time sunday d" by blast
  have "toordinal d + int 1 \<le> 3652059" using bound d(3) by simp
  from plus_days_ok [OF d(2) this] obtain e where
    e: "plus_days 1 d = Inr e" "valid_datetime e" "toordinal e = toordinal d + int 1"
       "same_time d e" by blast
  have md: "at_midnight d" using s(2) d(4) by (rule at_midnight_same_time)
  then have me: "at_midnight e" using e(4) by (rule at_midnight_same_time)
  note tb = total_between_by_time [OF rows valid fits d(2) e(2)]
  from d e md me tb show ?thesis by auto
qed

lemma bars_loop_ok:
  assumes fits: "sum_list (map (\<lambda>r. \<bar>sess_minutes r\<bar>) (sessions db)) < 2 ^ 63"
    and s: "valid_datetime sunday" and bound: "toordinal sunday + 7 \<le> 3652059"
    and offs: "\<forall>i \<in> set offsets. i < 7"
  shows "\<exists>bs. bars_loop db sunday offsets = Inr bs \<and> length bs = length offsets
     \<and> (\<forall>j < length offsets. \<exists>d e t. plus_days (offsets ! j) sunday = Inr d
            \<and> plus_days 1 d = Inr e \<and> total_between db d e = Inr t
            \<and> bs ! j = (strftime_a d, t))"
  using offs
proof (induction offsets)
  case Nil
  show ?case by simp
next
  case (Cons i offsets)
  then have i: "i < 7" by simp
  then have "toordinal sunday + int i \<le> 3652059" using bound by simp
  from plus_days_ok [OF s this] obtain d where
    d: "plus_days i sunday = Inr d" "valid_datetime d" "toordinal d = toordinal sunday + int i"
    by blast
  have "toordinal d + int 1 \<le> 3652059" using bound d(3) i by simp
  from plus_days_ok [OF d(2) this] obtain e where e: "plus_days 1 d = Inr e" by blast
  from total_between_ok [OF fits] obtain t where t: "total_between db d e = Inr t" by blast
  from Cons obtain bs where
    bs: "bars_loop db sunday offsets = Inr bs" "length bs = length offsets"
        "\<forall>j < length offsets. \<exists>d e t. plus_days (offsets ! j) sunday = Inr d
            \<and> plus_days 1 d = Inr e \<and> total_between db d e = Inr t
            \<and> bs ! j = (strftime_a d, t)"
    by auto
  let ?bs = "(strftime_a d, t) # bs"
  have "bars_loop db sunday (i # offsets) = Inr ?bs"
    using d(1) e t bs(1) by (simp del: plus_days.simps)
  moreover have "length ?bs = length (i # offsets)" using bs(2) by simp
  moreover have "\<forall>j < length (i # offsets). \<exists>d e t. plus_days ((i # offsets) ! j) sunday = Inr d
            \<and> plus_days 1 d = Inr e \<and> total_between db d e = Inr t
            \<and> ?bs ! j = (strftime_a d, t)"
  proof (intro allI impI)
    fix j assume "j < length (i # offsets)"
    show "\<exists>d e t. plus_days ((i # offsets) ! j) sunday = Inr d
            \<and> plus_days 1 d = Inr e \<and> total_between db d e = Inr t
            \<and> ?bs ! j = (strftime_a d, t)"
    proof (cases j)
      case 0
      with d(1) e t show ?thesis by (auto simp del: plus_days.simps)
    next
      case (Suc j')
      with \<open>j < length (i # offsets)\<close> have "j' < length offsets" by simp
      with bs(3) Suc show ?thesis by (auto simp del: plus_days.simps)
    qed
  qed
  ultimately show ?case by blast
qed

lemma sunday_weekday:
  fixes t :: int
  assumes "0 \<le> t"
  shows "(t - int ((nat ((t + 6) mod 7) + 1) mod 7) + 6) mod 7 = 6"
    and "int ((nat ((t + 6) mod 7) + 1) mod 7) \<le> 6"
proof -
  define a where "a = (t + 6) mod 7"
  have a: "0 \<le> a" "a < 7" by (simp_all add: a_def)
  define k where "k = int ((nat a + 1) mod 7)"
  have k: "k = (a + 1) mod 7" using a by (simp add: k_def zmod_int add.commute)
  show "int ((nat ((t + 6) mod 7) + 1) mod 7) \<le> 6"
    unfolding a_def [symmetric] k_def [symmetric] k by simp
  have "(t - k + 6) mod 7 = ((t + 6) mod 7 - k mod 7) mod 7"
    by (simp add: mod_diff_eq algebra_simps)
  also have "\<dots> = (a - (a + 1) mod 7) mod 7" by (simp add: a_def k)
  also have "\<dots> = (a - (a + 1)) mod 7" by (simp add: mod_diff_right_eq)
  also have "\<dots> = 6" by simp
  finally show "(t - int ((nat ((t + 6) mod 7) + 1) mod 7) + 6) mod 7 = 6"
    unfolding a_def [symmetric] k_def [symmetric] .
qed

lemma label_of_offset:
  assumes "i < 7"
  shows "[''Mon'', ''Tue'', ''Wed'', ''Thu'', ''Fri'', ''Sat'', ''Sun''] ! nat ((6 + int i) mod 7)
       = [''Sun'', ''Mon'', ''Tue'', ''Wed'', ''Thu'', ''Fri'', ''Sat''] ! i"
proof -
  from assms have "i = 0 \<or> i = 1 \<or> i = 2 \<or> i = 3 \<or> i = 4 \<or> i = 5 \<or> i = 6" by arith
  then show ?thesis by (elim disjE) simp_all
qed

lemma get_stats_parts:
  assumes now: "valid_datetime now" and y2: "2 \<le> year now" and y9: "year now \<le> 9998"
    and fits: "sum_list (map (\<lambda>r. \<bar>sess_minutes r\<bar>) (sessions db)) < 2 ^ 63"
  shows "\<exists>sunday bs cards dt wt mt.
      get_stats db now =
        Inr \<lparr> stats_day = dt, stats_week = wt, stats_month = mt,
              bars = bs, month_cards = cards \<rparr>
    \<and> total_since db sunday = Inr wt
    \<and> valid_datetime sunday \<and> at_midnight sunday \<and> weekday sunday = 6
    \<and> toordinal sunday \<le> toordinal now \<and> toordinal now < toordinal sunday + 7
    \<and> length bs = 7
    \<and> (\<forall>j < 7. \<exists>d e t. plus_days j sunday = Inr d \<and> plus_days 1 d = Inr e
            \<and> total_between db d e = Inr t \<and> bs ! j = (strftime_a d, t))"
proof -
  define ds where "ds = \<lparr> year = year now, month = month now, day = day now,
                        hour = 0, minute = 0, second = 0, microsecond = 0 \<rparr>"
  define ms where "ms = \<lparr> year = year now, month = month now, day = 1,
                        hour = 0, minute = 0, second = 0, microsecond = 0 \<rparr>"
  define k where "k = (weekday ds + 1) mod 7"
  have ms_ds: "ms = ds\<lparr> day := 1 \<rparr>" by (simp add: ms_def ds_def)
  have vds: "valid_datetime ds" using now by (simp add: ds_def valid_datetime_def)
  have tds: "toordinal ds = toordinal now" by (simp add: ds_def toordinal_def)
  have mds: "at_midnight ds" by (simp add: ds_def at_midnight_def)
  have lo: "366 \<le> toordinal now" using now y2 by (rule toordinal_lower)
  have hi: "toordinal now \<le> 3651694" using now y9 by (rule toordinal_upper)
  have t0: "0 \<le> toordinal ds" using lo tds by simp
  have wk: "weekday ds = nat ((toordinal ds + 6) mod 7)" by (simp add: weekday_def)
  have k6: "int k \<le> 6" and km: "(toordinal ds - int k + 6) mod 7 = 6"
    using sunday_weekday [OF t0] by (simp_all add: k_def wk)
  have "1 \<le> toordinal ds - int k" using lo tds k6 by simp
  from minus_days_ok [OF vds this] obtain sunday where
    su: "minus_days k ds = Inr sunday" "valid_datetime sunday"
        "toordinal sunday = toordinal ds - int k" "same_time ds sunday"
    by blast
  have msu: "at_midnight sunday" using mds su(4) by (rule at_midnight_same_time)
  have wsu: "weekday sunday = 6" using km by (simp add: weekday_def su(3))
  have r1: "toordinal sunday \<le> toordinal now" using su(3) tds by simp
  have r2: "toordinal now < toordinal sunday + 7" using su(3) tds k6 by simp
  have "toordinal sunday + 7 \<le> 3652059" using r1 hi by simp
  from bars_loop_ok [OF fits su(2) this, of "[0 ..< 7]"] obtain bs where
    bs: "bars_loop db sunday [0 ..< 7] = Inr bs" "length bs = length [0 ..< 7]"
        "\<forall>j < length [0 ..< 7]. \<exists>d e t. plus_days ([0 ..< 7] ! j) sunday = Inr d
            \<and> plus_days 1 d = Inr e \<and> total_between db d e = Inr t
            \<and> bs ! j = (strftime_a d, t)"
    by auto
  have bl: "length bs = 7" using bs(2) by simp
  have be: "\<forall>j < 7. \<exists>d e t. plus_days j sunday = Inr d \<and> plus_days 1 d = Inr e
            \<and> total_between db d e = Inr t \<and> bs ! j = (strftime_a d, t)"
  proof (intro allI impI)
    fix j :: nat assume j: "j < 7"
    then have "[0 ..< 7] ! j = j" by (metis add_0 nth_upt)
    with bs(3) j show "\<exists>d e t. plus_days j sunday = Inr d \<and> plus_days 1 d = Inr e
            \<and> total_between db d e = Inr t \<and> bs ! j = (strftime_a d, t)"
      by (metis diff_zero length_upt)
  qed
  note r = replace_day_1 [OF vds]
  have "31 * int 3 < toordinal ms" using r(3) lo tds by (simp add: ms_ds)
  moreover have "toordinal ms + 32 \<le> 3652059" using r(4) hi tds by (simp add: ms_ds)
  moreover have "valid_datetime ms" using r(1) by (simp add: ms_ds)
  ultimately obtain cards where cards: "month_cards_loop db 3 ms = Inr cards"
    using month_cards_loop_ok [OF fits, of ms 3] by blast
  from total_since_ok [OF fits] obtain dt where dt: "total_since db ds = Inr dt" by blast
  from total_since_ok [OF fits] obtain wt where wt: "total_since db sunday = Inr wt" by blast
  from total_since_ok [OF fits] obtain mt where mt: "total_since db ms = Inr mt" by blast
  have "get_stats db now =
        Inr \<lparr> stats_day = dt, stats_week = wt, stats_month = mt,
              bars = bs, month_cards = cards \<rparr>"
    unfolding get_stats_def Let_def ds_def [symmetric] ms_def [symmetric] k_def [symmetric]
    by (simp only: su(1) dt wt mt bs(1) cards sum.case)
  with wt su(2) msu wsu r1 r2 bl be show ?thesis by blast
qed

text \<open>
  The day count determines the calendar date, so a datetime at midnight is determined
  by its day count; and a week holds one Sunday.
\<close>

lemma days_before_month_mono:
  assumes "1 \<le> m" and "m \<le> m'" and "m' \<le> 12"
  shows "days_before_month y m + int (days_in_month y m) \<le> days_before_month y m' + int (days_in_month y m')"
  using assms(2,1,3)
proof (induction m' rule: dec_induct)
  case base
  show ?case by simp
next
  case (step n)
  then have "1 \<le> n" "n < 12" by simp_all
  from days_before_next_month [OF this, of y] step show ?case by simp
qed

lemma toordinal_less_year:
  assumes a: "valid_datetime a" and b: "valid_datetime b" and lt: "year a < year b"
  shows "toordinal a < toordinal b"
proof -
  have ya: "1 \<le> year a" using a by (simp add: valid_datetime_def)
  have "days_before_month (year a) (month a) + int (day a) \<le> (if is_leap (year a) then 366 else 365)"
    using a by (intro day_of_year_bounds) (simp_all add: valid_datetime_def)
  then have "toordinal a \<le> days_before_year (Suc (year a))"
    by (simp add: toordinal_def days_before_year_Suc [OF ya] split: if_splits)
  also have "\<dots> \<le> days_before_year (year b)"
    using lt by (intro days_before_year_mono) simp_all
  also have "\<dots> < toordinal b"
  proof -
    have "1 \<le> days_before_month (year b) (month b) + int (day b)"
      using b by (intro day_of_year_bounds) (simp_all add: valid_datetime_def)
    then show ?thesis by (simp add: toordinal_def)
  qed
  finally show ?thesis .
qed

lemma toordinal_less_month:
  assumes a: "valid_datetime a" and b: "valid_datetime b"
    and y: "year a = year b" and lt: "month a < month b"
  shows "toordinal a < toordinal b"
proof -
  have ma: "1 \<le> month a" "month a < 12" and mb: "month b \<le> 12"
    using a b lt by (simp_all add: valid_datetime_def)
  have "days_before_month (year a) (month a) + int (day a)
        \<le> days_before_month (year a) (month a) + int (days_in_month (year a) (month a))"
    using a by (simp add: valid_datetime_def)
  also have "\<dots> = days_before_month (year a) (month a + 1)"
    using days_before_next_month [OF ma] by simp
  also have "\<dots> < days_before_month (year a) (month a + 1) + int (days_in_month (year a) (month a + 1))"
    using days_in_month_ge_28 [of "year a" "month a + 1"] by simp
  also have "\<dots> \<le> days_before_month (year a) (month b) + int (days_in_month (year a) (month b))"
    using lt mb by (intro days_before_month_mono) simp_all
  finally have "days_before_month (year a) (month a) + int (day a)
      < days_before_month (year a) (month b) + int (days_in_month (year a) (month b))" .
  moreover have "days_before_month (year a) (month a + 1) \<le> days_before_month (year a) (month b)"
  proof (cases "month a + 1 = month b")
    case True
    then show ?thesis by simp
  next
    case False
    with lt have l2: "month a + 1 < month b" by simp
    then have m1: "1 \<le> month b - 1" "month b - 1 < 12" using mb by simp_all
    have "days_before_month (year a) (month a + 1) + int (days_in_month (year a) (month a + 1))
          \<le> days_before_month (year a) (month b - 1) + int (days_in_month (year a) (month b - 1))"
      using l2 mb by (intro days_before_month_mono) simp_all
    also have "\<dots> = days_before_month (year a) (month b)"
      using days_before_next_month [OF m1, of "year a"] m1 by simp
    finally show ?thesis by simp
  qed
  ultimately have "days_before_month (year a) (month a) + int (day a)
      \<le> days_before_month (year a) (month b)"
    using a days_before_next_month [OF ma, of "year a"] by (simp add: valid_datetime_def)
  moreover have "1 \<le> day b" using b by (simp add: valid_datetime_def)
  ultimately show ?thesis by (simp add: toordinal_def y)
qed

lemma toordinal_inj:
  assumes a: "valid_datetime a" and b: "valid_datetime b" and eq: "toordinal a = toordinal b"
  shows "year a = year b \<and> month a = month b \<and> day a = day b"
proof -
  have y: "year a = year b"
    using toordinal_less_year [OF a b] toordinal_less_year [OF b a] eq
    by (metis less_irrefl nat_neq_iff)
  have m: "month a = month b"
    using toordinal_less_month [OF a b y] toordinal_less_month [OF b a y [symmetric]] eq
    by (metis less_irrefl nat_neq_iff)
  from eq y m have "day a = day b" by (simp add: toordinal_def)
  with y m show ?thesis by simp
qed

lemma midnight_determined:
  assumes "valid_datetime a" and "valid_datetime b" and "at_midnight a" and "at_midnight b"
    and "toordinal a = toordinal b"
  shows "a = b"
proof -
  from toordinal_inj [OF assms(1,2,5)] assms(3,4) show ?thesis
    by (simp add: at_midnight_def datetime.equality)
qed

lemma same_residue_close:
  fixes x y t :: int
  assumes "(x + 6) mod 7 = 6" and "(y + 6) mod 7 = 6"
    and "x \<le> t" and "t < x + 7" and "y \<le> t" and "t < y + 7"
  shows "x = y"
proof -
  have "x + 6 = 7 * ((x + 6) div 7) + (x + 6) mod 7" by simp
  then have x: "x = 7 * ((x + 6) div 7)" using assms(1) by simp
  have "y + 6 = 7 * ((y + 6) div 7) + (y + 6) mod 7" by simp
  then have y: "y = 7 * ((y + 6) div 7)" using assms(2) by simp
  define a where "a = (x + 6) div 7"
  define b where "b = (y + 6) div 7"
  have "7 * a - 7 * b < 7" "7 * b - 7 * a < 7"
    using assms(3-6) x y by (simp_all add: a_def b_def)
  then have "a = b" by simp
  with x y show ?thesis by (simp add: a_def b_def)
qed

text \<open>
  Claim C6. The session table holds rows whose \<^verbatim>\<open>occurred_at\<close> texts are the
  \<^verbatim>\<open>isoformat\<close> of valid naive datetimes \<open>whens\<close> (what \<^verbatim>\<open>log_session\<close> writes) and
  whose minutes stay below \<open>2^63\<close> in absolute value when added up (no \<^verbatim>\<open>SUM\<close> over
  them leaves the signed 64-bit range), and \<open>now\<close> is a valid datetime of the years
  2..9998 (no date computed from it leaves the calendar). Then \<^verbatim>\<open>get_stats\<close> returns.
  There is exactly one Sunday midnight (\<^verbatim>\<open>weekday()\<close> 6) at most six days before the
  current day; \<open>week\<close> is the sum of the minutes of the sessions at or after it, and
  \<open>bars\<close> has exactly seven entries, labelled Sunday through Saturday (\<^verbatim>\<open>strftime("%a")\<close>
  in the C locale), entry \<open>i\<close> being the sum of the minutes of the sessions in the
  half-open interval from midnight of day \<open>i\<close> of that week to the next midnight.
\<close>

theorem get_stats_week_and_bars:
  assumes now: "valid_datetime now" and y2: "2 \<le> year now" and y9: "year now \<le> 9998"
    and rows: "map occurred_at (sessions db) = map isoformat whens"
    and valid: "\<forall>w \<in> set whens. valid_datetime w"
    and fits: "sum_list (map (\<lambda>r. \<bar>sess_minutes r\<bar>) (sessions db)) < 2 ^ 63"
  shows "\<exists>st sunday.
      get_stats db now = Inr st
    \<and> valid_datetime sunday \<and> at_midnight sunday \<and> weekday sunday = 6
    \<and> toordinal sunday \<le> toordinal now \<and> toordinal now < toordinal sunday + 7
    \<and> (\<forall>s. valid_datetime s \<and> at_midnight s \<and> weekday s = 6
           \<and> toordinal s \<le> toordinal now \<and> toordinal now < toordinal s + 7 \<longrightarrow> s = sunday)
    \<and> stats_week st =
        sum_list (map (\<lambda>(r, w). if dt_le sunday w then sess_minutes r else 0)
                      (zip (sessions db) whens))
    \<and> length (bars st) = 7
    \<and> map fst (bars st) = [''Sun'', ''Mon'', ''Tue'', ''Wed'', ''Thu'', ''Fri'', ''Sat'']
    \<and> (\<forall>i < 7. \<exists>d e.
           valid_datetime d \<and> at_midnight d \<and> toordinal d = toordinal sunday + int i
         \<and> valid_datetime e \<and> at_midnight e \<and> toordinal e = toordinal d + 1
         \<and> snd (bars st ! i) =
             sum_list (map (\<lambda>(r, w). if dt_le d w \<and> dt_less w e then sess_minutes r else 0)
                           (zip (sessions db) whens)))"
proof -
  from get_stats_parts [OF now y2 y9 fits] obtain sunday bs cards dt wt mt where
    gs: "get_stats db now =
        Inr \<lparr> stats_day = dt, stats_week = wt, stats_month = mt,
              bars = bs, month_cards = cards \<rparr>"
    and wt: "total_since db sunday = Inr wt"
    and su: "valid_datetime sunday" "at_midnight sunday" "weekday sunday = 6"
      "toordinal sunday \<le> toordinal now" "toordinal now < toordinal sunday + 7"
    and bl: "length bs = 7"
    and be: "\<forall>j < 7. \<exists>d e t. plus_days j sunday = Inr d \<and> plus_days 1 d = Inr e
            \<and> total_between db d e = Inr t \<and> bs ! j = (strftime_a d, t)"
    by (elim exE conjE) (rule that; assumption)
  have hi: "toordinal now \<le> 3651694" using now y9 by (rule toordinal_upper)
  have lo: "366 \<le> toordinal now" using now y2 by (rule toordinal_lower)
  have w6: "(toordinal sunday + 6) mod 7 = 6"
  proof -
    have "0 \<le> (toordinal sunday + 6) mod 7" by simp
    with su(3) show ?thesis by (simp add: weekday_def)
  qed
  have bar: "\<exists>d e.
           valid_datetime d \<and> at_midnight d \<and> toordinal d = toordinal sunday + int i
         \<and> valid_datetime e \<and> at_midnight e \<and> toordinal e = toordinal d + 1
         \<and> bs ! i = ([''Sun'', ''Mon'', ''Tue'', ''Wed'', ''Thu'', ''Fri'', ''Sat''] ! i,
             sum_list (map (\<lambda>(r, w). if dt_le d w \<and> dt_less w e then sess_minutes r else 0)
                           (zip (sessions db) whens)))" if i: "i < 7" for i
  proof -
    from be i obtain d e t where
      de: "plus_days i sunday = Inr d" "plus_days 1 d = Inr e"
          "total_between db d e = Inr t" "bs ! i = (strftime_a d, t)"
      by blast
    have "toordinal sunday + int i + 1 \<le> 3652059" using su(4) hi i by simp
    from bars_entry [OF rows valid fits su(1,2) this] de(1,2)
    have p: "valid_datetime d" "at_midnight d" "toordinal d = toordinal sunday + int i"
      "valid_datetime e" "at_midnight e" "toordinal e = toordinal d + 1"
      "total_between db d e =
         Inr (sum_list (map (\<lambda>(r, w). if dt_le d w \<and> dt_less w e then sess_minutes r else 0)
                            (zip (sessions db) whens)))"
      by auto
    from de(3) p(7) have t: "t =
         sum_list (map (\<lambda>(r, w). if dt_le d w \<and> dt_less w e then sess_minutes r else 0)
                       (zip (sessions db) whens))"
      by simp
    have "toordinal d + 6 = (toordinal sunday + 6) + int i" unfolding p(3) by simp
    then have "(toordinal d + 6) mod 7 = ((toordinal sunday + 6) mod 7 + int i) mod 7"
      by (simp only: mod_add_left_eq)
    also have "\<dots> = (6 + int i) mod 7" by (simp add: w6)
    finally have "weekday d = nat ((6 + int i) mod 7)" by (simp add: weekday_def)
    then have "strftime_a d = [''Sun'', ''Mon'', ''Tue'', ''Wed'', ''Thu'', ''Fri'', ''Sat''] ! i"
      using label_of_offset [OF i] by (simp add: strftime_a_def)
    with de(4) t have "bs ! i = ([''Sun'', ''Mon'', ''Tue'', ''Wed'', ''Thu'', ''Fri'', ''Sat''] ! i,
             sum_list (map (\<lambda>(r, w). if dt_le d w \<and> dt_less w e then sess_minutes r else 0)
                           (zip (sessions db) whens)))"
      by simp
    with p(1-6) show ?thesis
      by (intro exI [where x = d] exI [where x = e] conjI) assumption+
  qed
  have labels: "map fst bs = [''Sun'', ''Mon'', ''Tue'', ''Wed'', ''Thu'', ''Fri'', ''Sat'']"
  proof (rule nth_equalityI)
    show "length (map fst bs) = length [''Sun'', ''Mon'', ''Tue'', ''Wed'', ''Thu'', ''Fri'', ''Sat'']"
      using bl by simp
  next
    fix i assume "i < length (map fst bs)"
    then have i: "i < 7" using bl by simp
    from bar [OF i] have "fst (bs ! i) = [''Sun'', ''Mon'', ''Tue'', ''Wed'', ''Thu'', ''Fri'', ''Sat''] ! i"
      by auto
    then show "map fst bs ! i = [''Sun'', ''Mon'', ''Tue'', ''Wed'', ''Thu'', ''Fri'', ''Sat''] ! i"
      using i bl by simp
  qed
  have uniq: "\<forall>s. valid_datetime s \<and> at_midnight s \<and> weekday s = 6
           \<and> toordinal s \<le> toordinal now \<and> toordinal now < toordinal s + 7 \<longrightarrow> s = sunday"
  proof (intro allI impI)
    fix s
    assume s: "valid_datetime s \<and> at_midnight s \<and> weekday s = 6
           \<and> toordinal s \<le> toordinal now \<and> toordinal now < toordinal s + 7"
    from s have "nat ((toordinal s + 6) mod 7) = 6" by (simp add: weekday_def)
    then have "(toordinal s + 6) mod 7 = 6" by (simp add: nat_eq_iff)
    from s have b: "toordinal s \<le> toordinal now" "toordinal now < toordinal s + 7" by simp_all
    from \<open>(toordinal s + 6) mod 7 = 6\<close> w6 b su(4,5)
    have "toordinal s = toordinal sunday" by (rule same_residue_close)
    with s su(1,2) show "s = sunday" by (intro midnight_determined) simp_all
  qed
  have "total_since db sunday =
        Inr (sum_list (map (\<lambda>(r, w). if dt_le sunday w then sess_minutes r else 0)
                           (zip (sessions db) whens)))"
    using rows valid fits su(1) by (rule total_since_by_time)
  with wt have week: "wt =
        sum_list (map (\<lambda>(r, w). if dt_le sunday w then sess_minutes r else 0)
                      (zip (sessions db) whens))"
    by simp
  have sums: "\<forall>i < 7. \<exists>d e.
           valid_datetime d \<and> at_midnight d \<and> toordinal d = toordinal sunday + int i
         \<and> valid_datetime e \<and> at_midnight e \<and> toordinal e = toordinal d + 1
         \<and> snd (bs ! i) =
             sum_list (map (\<lambda>(r, w). if dt_le d w \<and> dt_less w e then sess_minutes r else 0)
                           (zip (sessions db) whens))"
  proof (intro allI impI)
    fix i :: nat assume "i < 7"
    from bar [OF this] obtain d e where
      p: "valid_datetime d" "at_midnight d" "toordinal d = toordinal sunday + int i"
         "valid_datetime e" "at_midnight e" "toordinal e = toordinal d + 1"
      and b: "bs ! i = ([''Sun'', ''Mon'', ''Tue'', ''Wed'', ''Thu'', ''Fri'', ''Sat''] ! i,
             sum_list (map (\<lambda>(r, w). if dt_le d w \<and> dt_less w e then sess_minutes r else 0)
                           (zip (sessions db) whens)))"
      by blast
    from b have s: "snd (bs ! i) =
             sum_list (map (\<lambda>(r, w). if dt_le d w \<and> dt_less w e then sess_minutes r else 0)
                           (zip (sessions db) whens))"
      by (simp only: snd_conv)
    from p s show "\<exists>d e.
           valid_datetime d \<and> at_midnight d \<and> toordinal d = toordinal sunday + int i
         \<and> valid_datetime e \<and> at_midnight e \<and> toordinal e = toordinal d + 1
         \<and> snd (bs ! i) =
             sum_list (map (\<lambda>(r, w). if dt_le d w \<and> dt_less w e then sess_minutes r else 0)
                           (zip (sessions db) whens))"
      by (intro exI [where x = d] exI [where x = e] conjI) assumption+
  qed
  let ?st = "\<lparr> stats_day = dt, stats_week = wt, stats_month = mt,
              bars = bs, month_cards = cards \<rparr>"
  have w: "stats_week ?st = sum_list (map (\<lambda>(r, w). if dt_le sunday w then sess_minutes r else 0)
                      (zip (sessions db) whens))"
    using week by simp
  have b: "bars ?st = bs" by simp
  show ?thesis
    apply (rule exI [where x = ?st])
    apply (rule exI [where x = sunday])
    unfolding b
    using gs su uniq w bl labels sums
    apply (intro conjI)
             apply assumption+
    done
qed

theorem get_stats_week_and_bars_witness:
  "valid_datetime \<lparr> year = 2024, month = 3, day = 5, hour = 10, minute = 30, second = 0, microsecond = 0 \<rparr>
   \<and> valid_datetime \<lparr> year = 2024, month = 3, day = 5, hour = 9, minute = 0, second = 0, microsecond = 250000 \<rparr>
   \<and> valid_datetime \<lparr> year = 2024, month = 2, day = 10, hour = 8, minute = 0, second = 0, microsecond = 0 \<rparr>
   \<and> valid_datetime \<lparr> year = 2024, month = 3, day = 3, hour = 0, minute = 0, second = 0, microsecond = 0 \<rparr>
   \<and> (\<exists>db st.
          (case log_session ensure_schema
             1 30 (Some \<lparr> year = 2024, month = 3, day = 5, hour = 9, minute = 0, second = 0, microsecond = 250000 \<rparr>)
                  \<lparr> year = 2024, month = 3, day = 5, hour = 10, minute = 30, second = 0, microsecond = 0 \<rparr> of
             Inl e \<Rightarrow> Inl e
           | Inr db1 \<Rightarrow>
          (case log_session db1
             1 45 (Some \<lparr> year = 2024, month = 2, day = 10, hour = 8, minute = 0, second = 0, microsecond = 0 \<rparr>)
                  \<lparr> year = 2024, month = 3, day = 5, hour = 10, minute = 30, second = 0, microsecond = 0 \<rparr> of
             Inl e \<Rightarrow> Inl e
           | Inr db2 \<Rightarrow>
           log_session db2
             1 20 (Some \<lparr> year = 2024, month = 3, day = 3, hour = 0, minute = 0, second = 0, microsecond = 0 \<rparr>)
                  \<lparr> year = 2024, month = 3, day = 5, hour = 10, minute = 30, second = 0, microsecond = 0 \<rparr>))
          = Inr db
        \<and> map sess_minutes (sessions db) = [30, 45, 20]
        \<and> get_stats db
          \<lparr> year = 2024, month = 3, day = 5, hour = 10, minute = 30, second = 0, microsecond = 0 \<rparr> = Inr st
        \<and> stats_week st = 50
        \<and> length (bars st) = 7
        \<and> map fst (bars st) = [''Sun'', ''Mon'', ''Tue'', ''Wed'', ''Thu'', ''Fri'', ''Sat''])"
proof -
  let ?now = "\<lparr> year = 2024, month = 3, day = 5, hour = 10, minute = 30, second = 0, microsecond = 0 \<rparr>"
  let ?t1 = "\<lparr> year = 2024, month = 3, day = 5, hour = 9, minute = 0, second = 0, microsecond = 250000 \<rparr>"
  let ?t2 = "\<lparr> year = 2024, month = 2, day = 10, hour = 8, minute = 0, second = 0, microsecond = 0 \<rparr>"
  let ?t3 = "\<lparr> year = 2024, month = 3, day = 3, hour = 0, minute = 0, second = 0, microsecond = 0 \<rparr>"
  let ?db = "ensure_schema\<lparr> sessions :=
               [\<lparr> sess_id = 1, sess_subject_id = 1, sess_minutes = 30, occurred_at = isoformat ?t1 \<rparr>,
                \<lparr> sess_id = 2, sess_subject_id = 1, sess_minutes = 45, occurred_at = isoformat ?t2 \<rparr>,
                \<lparr> sess_id = 3, sess_subject_id = 1, sess_minutes = 20, occurred_at = isoformat ?t3 \<rparr>],
               sessions_seq := 3 \<rparr>"
  have v: "valid_datetime ?now" "valid_datetime ?t1" "valid_datetime ?t2" "valid_datetime ?t3"
    by (simp_all add: valid_datetime_def days_in_month_def is_leap_def)
  have y: "2 \<le> year ?now" "year ?now \<le> 9998" by simp_all
  have logged: "(case log_session ensure_schema 1 30 (Some ?t1) ?now of
             Inl e \<Rightarrow> Inl e
           | Inr db1 \<Rightarrow>
          (case log_session db1 1 45 (Some ?t2) ?now of
             Inl e \<Rightarrow> Inl e
           | Inr db2 \<Rightarrow> log_session db2 1 20 (Some ?t3) ?now)) = Inr ?db"
    by (simp add: log_session_def sqlite_integer_def ensure_schema_def)
  have mins: "map sess_minutes (sessions ?db) = [30, 45, 20]" by simp
  have rows: "map occurred_at (sessions ?db) = map isoformat [?t1, ?t2, ?t3]" by simp
  have all: "\<forall>w \<in> set [?t1, ?t2, ?t3]. valid_datetime w" using v by simp
  have fits: "sum_list (map (\<lambda>r. \<bar>sess_minutes r\<bar>) (sessions ?db)) < 2 ^ 63" by simp
  obtain st sunday where st: "get_stats ?db ?now = Inr st" "length (bars st) = 7"
    "map fst (bars st) = [''Sun'', ''Mon'', ''Tue'', ''Wed'', ''Thu'', ''Fri'', ''Sat'']"
    and uniq: "\<forall>s. valid_datetime s \<and> at_midnight s \<and> weekday s = 6
           \<and> toordinal s \<le> toordinal ?now \<and> toordinal ?now < toordinal s + 7 \<longrightarrow> s = sunday"
    and week: "stats_week st =
        sum_list (map (\<lambda>(r, w). if dt_le sunday w then sess_minutes r else 0)
                      (zip (sessions ?db) [?t1, ?t2, ?t3]))"
    using get_stats_week_and_bars [OF v(1) y rows all fits]
    by (elim exE conjE) (rule that; assumption)
  have tn: "toordinal ?now = 738950" and t3: "toordinal ?t3 = 738948"
    by (simp_all add: toordinal_def days_before_year_def days_before_month_def is_leap_def)
  have "valid_datetime ?t3 \<and> at_midnight ?t3 \<and> weekday ?t3 = 6
           \<and> toordinal ?t3 \<le> toordinal ?now \<and> toordinal ?now < toordinal ?t3 + 7"
    using v(4) unfolding tn t3 weekday_def t3 by (simp add: at_midnight_def)
  with uniq have su: "sunday = ?t3" by (metis (no_types))
  have "stats_week st = 50"
    unfolding week su
    by (simp add: dt_le_def dt_key_def)
  with st logged mins have "\<exists>db st.
          (case log_session ensure_schema 1 30 (Some ?t1) ?now of
             Inl e \<Rightarrow> Inl e
           | Inr db1 \<Rightarrow>
          (case log_session db1 1 45 (Some ?t2) ?now of
             Inl e \<Rightarrow> Inl e
           | Inr db2 \<Rightarrow> log_session db2 1 20 (Some ?t3) ?now)) = Inr db
      \<and> map sess_minutes (sessions db) = [30, 45, 20]
      \<and> get_stats db ?now = Inr st \<and> stats_week st = 50 \<and> length (bars st) = 7
      \<and> map fst (bars st) = [''Sun'', ''Mon'', ''Tue'', ''Wed'', ''Thu'', ''Fri'', ''Sat'']"
    by (intro exI [where x = ?db] exI [where x = st] conjI)
  with v show ?thesis by (intro conjI)
qed

end
